theory Spec2Isabelle
  imports Main "HOL-Library.Sublist"
begin

section \<open>The front-end (src/frontend/src/App.jsx)\<close>

text \<open>
  The component keeps five pieces of state (\<open>useState\<close>): \<open>info\<close> (initially null),
  \<open>logs\<close> (initially the empty array), \<open>amount\<close> and \<open>genBlocks\<close> (the contents of two
  number inputs, initially 10 and 1), and \<open>targetAddress\<close> (a text input, initially the empty
  string). The inputs store \<open>e.target.value\<close>, a string, so the two numbers are kept as the
  text that the template literals print. JSON data is a type parameter \<open>'j\<close>.
\<close>

record 'j app =
  info :: "'j option"
  logs :: "string list"
  amount :: string
  genBlocks :: string
  targetAddress :: string

definition initial_app :: "'j app" where
  "initial_app = \<lparr>info = None, logs = [], amount = ''10'', genBlocks = ''1'', targetAddress = ''''\<rparr>"

text \<open>
  The requests the modelled handlers send. \<open>POST_send address amount\<close> is the POST to
  \<open>/send\<close>, whose body is built from the target address and from \<open>parseFloat(amount)\<close>; the
  model carries the text the number is parsed from.
\<close>

datatype request = GET_info | POST_send string string

text \<open>
  What the browser and the control API contribute: \<open>fetch\<close> followed by \<open>res.json()\<close> either
  throws (\<open>Inl\<close> the text of the exception, as \<open>${e}\<close> prints it) or yields the decoded data;
  \<open>txid_of\<close> reads \<open>data.txid\<close>: it throws when the data is \<open>null\<close> (\<open>Inl\<close> the text of the
  TypeError), and otherwise yields the property (\<open>None\<close> when it is missing or falsy);
  \<open>stringify\<close> is \<open>JSON.stringify\<close>.
\<close>

record 'j web =
  fetch :: "request \<Rightarrow> string + 'j"
  txid_of :: "'j \<Rightarrow> string + string option"
  stringify :: "'j \<Rightarrow> string"

text \<open>\<open>const log = (msg) => setLogs(prev => [msg, ...prev].slice(0, 50))\<close>\<close>

definition log :: "string \<Rightarrow> 'j app \<Rightarrow> 'j app" where
  "log msg st = st\<lparr>logs := take 50 (msg # logs st)\<rparr>"

text \<open>
  \<open>fetchInfo\<close>: one GET of \<open>/info\<close>; the data replaces \<open>info\<close>, an exception is swallowed
  by the empty \<open>catch\<close>. Handlers return the new state and the requests they sent, in order.
\<close>

definition fetchInfo :: "'j web \<Rightarrow> 'j app \<Rightarrow> 'j app \<times> request list" where
  "fetchInfo web st =
     (case fetch web GET_info of
        Inl e \<Rightarrow> (st, [GET_info])
      | Inr data \<Rightarrow> (st\<lparr>info := Some data\<rparr>, [GET_info]))"

text \<open>
  \<open>send\<close>: the guard \<open>if (!targetAddress)\<close> holds for the empty string; then the handler
  logs and returns. Otherwise it logs, posts to \<open>/send\<close>, logs the transaction id or the
  error body, and refreshes \<open>info\<close>. An exception inside the \<open>try\<close> (of the request, or of
  reading \<open>data.txid\<close>) is logged by the \<open>catch\<close>, and \<open>fetchInfo\<close> is then not reached.
\<close>

definition send :: "'j web \<Rightarrow> 'j app \<Rightarrow> 'j app \<times> request list" where
  "send web st =
     (if targetAddress st = [] then
        (log ''Error: No target address (generate one for Node 2 first)'' st, [])
      else
        let st1 = log (''Sending '' @ amount st @ '' BTC to '' @ targetAddress st @ ''...'') st;
            req = POST_send (targetAddress st) (amount st)
        in case fetch web req of
             Inl e \<Rightarrow> (log (''Error: '' @ e) st1, [req])
           | Inr data \<Rightarrow>
               (case txid_of web data of
                  Inl e \<Rightarrow> (log (''Error: '' @ e) st1, [req])
                | Inr found \<Rightarrow>
                    let st2 = (case found of
                                 Some t \<Rightarrow> log (''Sent! TXID: '' @ t) st1
                               | None \<Rightarrow> log (''Error: '' @ stringify web data) st1);
                        (st3, reqs) = fetchInfo web st2
                    in (st3, req # reqs)))"

text \<open>The log after a sequence of \<open>log\<close> calls, oldest call first, from the initial state.\<close>

definition log_all :: "string list \<Rightarrow> 'j app \<Rightarrow> 'j app" where
  "log_all msgs st = foldl (\<lambda>s m. log m s) st msgs"

section \<open>The bootstrap script (src/unnamed/part_000)\<close>

subsection \<open>Commands, the environment and the shell state\<close>

text \<open>
  The script is a sequence of external commands run under \<open>set -e\<close>. The commands it runs:
  the \<open>make\<close> targets (the Makefile is not among the sources, so what a target does is
  left to the environment), \<open>bitcoin-cli -datadir=N\<close> with an RPC method, \<open>pgrep\<close>,
  \<open>sleep\<close>, the commands of the download step, and \<open>echo\<close> (a builtin, but one that
  returns a non-zero status when its output cannot be written).
\<close>

datatype target = Stop | Clean | Start | Generate nat | Getinfo

datatype rpc =
    Getnetworkinfo
  | Createwallet string
  | Getnewaddress
  | Sendtoaddress string nat nat
  | Getbalance

datatype cmd =
    Pwd
  | Mkdir_p string
  | Command_v string
  | Test_not_f string
  | Cd string
  | Wget string
  | Tar_xzf string
  | Cp_all string string
  | Export_PATH string
  | Bitcoind_version
  | Head_n nat
  | Make target
  | Pgrep string
  | Sleep nat
  | Bitcoin_cli nat rpc
  | Echo string

text \<open>
  An event is a command with the exit status it returned. The environment (file system,
  processes, nodes) is a state \<open>'w\<close> with a transition function: running a command in a
  world gives its exit status, its standard output, and the next world.
\<close>

type_synonym event = "cmd \<times> nat"

type_synonym 'w machine = "cmd \<Rightarrow> 'w \<Rightarrow> (nat \<times> string) \<times> 'w"

definition status :: "'w machine \<Rightarrow> cmd \<Rightarrow> 'w \<Rightarrow> nat" where
  "status run c w = fst (fst (run c w))"

text \<open>
  The shell: the world, the events so far (oldest first), and the three variables assigned
  from command output.
\<close>

record 'w shell =
  world :: 'w
  trace :: "event list"
  LOCAL_BIN_DIR :: string
  ADDR2 :: string
  TXID :: string

definition start_shell :: "'w \<Rightarrow> 'w shell" where
  "start_shell w =
     \<lparr>world = w, trace = [], LOCAL_BIN_DIR = [], ADDR2 = [], TXID = []\<rparr>"

text \<open>
  A piece of the script either falls through to the next command (\<open>Next\<close>), or ends the
  script with an exit status (\<open>Exit\<close>: under \<open>set -e\<close> a failing simple command ends the
  script with its status), or is still polling when the observer's budget of loop
  iterations is used up (\<open>Waiting\<close>). The polling loops have no bound of their own, so they
  are run against a budget: \<open>Waiting\<close> after a budget of \<open>n\<close> says that the loop has slept
  \<open>n\<close> times and is about to sleep again.
\<close>

datatype 'w outcome = Next "'w shell" | Exit nat "'w shell" | Waiting "'w shell"

fun final :: "'w outcome \<Rightarrow> 'w shell" where
  "final (Next s) = s"
| "final (Exit rc s) = s"
| "final (Waiting s) = s"

fun exit_status :: "'w outcome \<Rightarrow> nat option" where
  "exit_status (Exit rc s) = Some rc"
| "exit_status (Next s) = None"
| "exit_status (Waiting s) = None"

fun is_waiting :: "'w outcome \<Rightarrow> bool" where
  "is_waiting (Waiting s) = True"
| "is_waiting (Next s) = False"
| "is_waiting (Exit rc s) = False"

fun is_next :: "'w outcome \<Rightarrow> bool" where
  "is_next (Next s) = True"
| "is_next (Exit rc s) = False"
| "is_next (Waiting s) = False"

subsection \<open>The shell constructs the script uses\<close>

definition exec :: "'w machine \<Rightarrow> cmd \<Rightarrow> 'w shell \<Rightarrow> nat \<times> string \<times> 'w shell" where
  "exec run c s =
     (case run c (world s) of
        ((rc, out), w') \<Rightarrow> (rc, out, s\<lparr>world := w', trace := trace s @ [(c, rc)]\<rparr>))"

text \<open>A simple command under \<open>set -e\<close>.\<close>

definition simple :: "'w machine \<Rightarrow> cmd \<Rightarrow> 'w shell \<Rightarrow> 'w outcome" where
  "simple run c s = (case exec run c s of (rc, out, s') \<Rightarrow> if rc = 0 then Next s' else Exit rc s')"

text \<open>\<open>cmd || true\<close>, and the left side of a pipe (without \<open>pipefail\<close>): the status is dropped.\<close>

definition or_true :: "'w machine \<Rightarrow> cmd \<Rightarrow> 'w shell \<Rightarrow> 'w outcome" where
  "or_true run c s = (case exec run c s of (rc, out, s') \<Rightarrow> Next s')"

text \<open>\<open>echo "text"\<close>: a simple command like the others, so its failure ends the script.\<close>

definition echo :: "'w machine \<Rightarrow> string \<Rightarrow> 'w shell \<Rightarrow> 'w outcome" where
  "echo run line s = simple run (Echo line) s"

text \<open>Command substitution removes the trailing newlines of the output.\<close>

definition chomp :: "string \<Rightarrow> string" where
  "chomp out = rev (dropWhile (\<lambda>c. c = CHR 0x0A) (rev out))"

text \<open>\<open>VAR=$(cmd)\<close>: the status of the assignment is that of the command, so \<open>set -e\<close> applies.\<close>

definition assign ::
  "'w machine \<Rightarrow> cmd \<Rightarrow> (string \<Rightarrow> 'w shell \<Rightarrow> 'w shell) \<Rightarrow> 'w shell \<Rightarrow> 'w outcome" where
  "assign run c setvar s =
     (case exec run c s of
        (rc, out, s') \<Rightarrow>
          if rc = 0 then Next (setvar (chomp out) s') else Exit rc (setvar (chomp out) s'))"

text \<open>
  \<open>echo "text $(cmd)"\<close>: the command runs first and its status is dropped; the status of
  the line is that of \<open>echo\<close>.
\<close>

definition echo_subst :: "string \<Rightarrow> 'w machine \<Rightarrow> cmd \<Rightarrow> 'w shell \<Rightarrow> 'w outcome" where
  "echo_subst label run c s =
     (case exec run c s of
        (rc, out, s') \<Rightarrow> simple run (Echo (label @ chomp out)) s')"

text \<open>\<open>if ! cmd; then body; fi\<close> and \<open>if cmd; then body; fi\<close>.\<close>

definition if_not ::
  "'w machine \<Rightarrow> cmd \<Rightarrow> ('w shell \<Rightarrow> 'w outcome) \<Rightarrow> 'w shell \<Rightarrow> 'w outcome" where
  "if_not run c body s =
     (case exec run c s of (rc, out, s') \<Rightarrow> if rc \<noteq> 0 then body s' else Next s')"

definition if_then ::
  "'w machine \<Rightarrow> cmd \<Rightarrow> ('w shell \<Rightarrow> 'w outcome) \<Rightarrow> 'w shell \<Rightarrow> 'w outcome" where
  "if_then run c body s =
     (case exec run c s of (rc, out, s') \<Rightarrow> if rc = 0 then body s' else Next s')"

text \<open>
  \<open>while cond; do body; done\<close> and \<open>until cond; do body; done\<close>, the body one simple
  command. The budget counts executions of the body.
\<close>

fun while_do :: "'w machine \<Rightarrow> cmd \<Rightarrow> cmd \<Rightarrow> nat \<Rightarrow> 'w shell \<Rightarrow> 'w outcome" where
  "while_do run c b 0 s =
     (case exec run c s of (rc, out, s') \<Rightarrow> if rc = 0 then Waiting s' else Next s')"
| "while_do run c b (Suc n) s =
     (case exec run c s of
        (rc, out, s') \<Rightarrow>
          if rc = 0 then
            (case simple run b s' of
               Next s'' \<Rightarrow> while_do run c b n s''
             | Exit rc' s'' \<Rightarrow> Exit rc' s''
             | Waiting s'' \<Rightarrow> Waiting s'')
          else Next s')"

fun until_do :: "'w machine \<Rightarrow> cmd \<Rightarrow> cmd \<Rightarrow> nat \<Rightarrow> 'w shell \<Rightarrow> 'w outcome" where
  "until_do run c b 0 s =
     (case exec run c s of (rc, out, s') \<Rightarrow> if rc \<noteq> 0 then Waiting s' else Next s')"
| "until_do run c b (Suc n) s =
     (case exec run c s of
        (rc, out, s') \<Rightarrow>
          if rc \<noteq> 0 then
            (case simple run b s' of
               Next s'' \<Rightarrow> until_do run c b n s''
             | Exit rc' s'' \<Rightarrow> Exit rc' s''
             | Waiting s'' \<Rightarrow> Waiting s'')
          else Next s')"

text \<open>Commands one after the other.\<close>

fun seq :: "('w shell \<Rightarrow> 'w outcome) list \<Rightarrow> 'w shell \<Rightarrow> 'w outcome" where
  "seq [] s = Next s"
| "seq (f # fs) s =
     (case f s of
        Next s' \<Rightarrow> seq fs s'
      | Exit rc s' \<Rightarrow> Exit rc s'
      | Waiting s' \<Rightarrow> Waiting s')"

subsection \<open>The script\<close>

definition BITCOIN_VERSION :: string where
  "BITCOIN_VERSION = ''0.21.0''"

definition BITCOIN_TAR :: string where
  "BITCOIN_TAR = ''bitcoin-'' @ BITCOIN_VERSION @ ''-x86_64-linux-gnu.tar.gz''"

definition BITCOIN_URL :: string where
  "BITCOIN_URL =
     ''https://bitcoincore.org/bin/bitcoin-core-'' @ BITCOIN_VERSION @ ''/'' @ BITCOIN_TAR"

definition TEMP_DIR :: string where
  "TEMP_DIR = ''temp_bitcoin''"

text \<open>Lines 4 to 34: the directories, the download when \<open>bitcoind\<close> is missing, the version.\<close>

definition provision :: "'w machine \<Rightarrow> 'w shell \<Rightarrow> 'w outcome" where
  "provision run = seq
     [assign run Pwd (\<lambda>out s. s\<lparr>LOCAL_BIN_DIR := out @ ''/bin''\<rparr>),
      simple run (Mkdir_p TEMP_DIR),
      (\<lambda>s. simple run (Mkdir_p (LOCAL_BIN_DIR s)) s),
      if_not run (Command_v ''bitcoind'') (seq
        [(\<lambda>s. if_then run (Test_not_f (LOCAL_BIN_DIR s @ ''/bitcoind'')) (seq
           [echo run (''bitcoind not found. Downloading Bitcoin Core '' @ BITCOIN_VERSION @ ''...''),
            simple run (Cd TEMP_DIR),
            if_then run (Test_not_f BITCOIN_TAR) (simple run (Wget BITCOIN_URL)),
            simple run (Tar_xzf BITCOIN_TAR),
            (\<lambda>s. echo run (''Installing binaries to '' @ LOCAL_BIN_DIR s @ ''...'') s),
            (\<lambda>s. simple run
                   (Cp_all (''bitcoin-'' @ BITCOIN_VERSION @ ''/bin/*'') (LOCAL_BIN_DIR s @ ''/'')) s),
            simple run (Cd ''..'')]) s),
         (\<lambda>s. simple run (Export_PATH (LOCAL_BIN_DIR s)) s)]),
      echo run ''Bitcoin Core version:'',
      or_true run Bitcoind_version,
      simple run (Head_n 1)]"

text \<open>Lines 36 to 43, the stop: \<open>make stop || true\<close>, then the wait for the processes to go.\<close>

definition stop_and_wait :: "'w machine \<Rightarrow> nat \<Rightarrow> 'w shell \<Rightarrow> 'w outcome" where
  "stop_and_wait run n = seq
     [echo run ''Cleaning up previous run...'',
      or_true run (Make Stop),
      echo run ''Waiting for bitcoind to stop...'',
      while_do run (Pgrep ''bitcoind'') (Sleep 1) n]"

text \<open>
  Lines 36 to 68, the bootstrap sequence: stop and wait for the processes to go, clean,
  start, wait for both RPC servers, create the wallets, generate 101 blocks, print the info.
\<close>

definition bootstrap :: "'w machine \<Rightarrow> nat \<Rightarrow> 'w shell \<Rightarrow> 'w outcome" where
  "bootstrap run n = seq
     [stop_and_wait run n,
      simple run (Make Clean),
      echo run ''Starting Testnet...'',
      simple run (Make Start),
      echo run ''Waiting for nodes to start...'',
      until_do run (Bitcoin_cli 1 Getnetworkinfo) (Sleep 1) n,
      until_do run (Bitcoin_cli 2 Getnetworkinfo) (Sleep 1) n,
      simple run (Sleep 2),
      echo run ''Creating wallets...'',
      simple run (Bitcoin_cli 1 (Createwallet ''wallet1'')),
      simple run (Bitcoin_cli 2 (Createwallet ''wallet2'')),
      echo run ''Generating 101 blocks to mature coinbase...'',
      simple run (Make (Generate 101)),
      echo run ''Node 1 Info:'',
      simple run (Make Getinfo)]"

text \<open>Lines 70 to 87: the transfer, its confirmation, the balances, and the final stop.\<close>

definition transfer_check :: "'w machine \<Rightarrow> 'w shell \<Rightarrow> 'w outcome" where
  "transfer_check run = seq
     [echo run ''Generating address for Node 2...'',
      assign run (Bitcoin_cli 2 Getnewaddress) (\<lambda>out s. s\<lparr>ADDR2 := out\<rparr>),
      (\<lambda>s. echo run (''Address 2: '' @ ADDR2 s) s),
      echo run ''Sending 10 BTC from Node 1 to Node 2...'',
      (\<lambda>s. assign run (Bitcoin_cli 1 (Sendtoaddress (ADDR2 s) 10 20))
              (\<lambda>out s. s\<lparr>TXID := out\<rparr>) s),
      (\<lambda>s. echo run (''Transaction ID: '' @ TXID s) s),
      echo run ''Generating 1 block to confirm transaction...'',
      simple run (Make (Generate 1)),
      echo run ''Verifying Balances...'',
      echo_subst ''Node 1 Balance: '' run (Bitcoin_cli 1 Getbalance),
      echo_subst ''Node 2 Balance: '' run (Bitcoin_cli 2 Getbalance),
      echo run ''Testnet check complete. Stopping nodes...'',
      simple run (Make Stop)]"

text \<open>
  The whole script. When the last command has succeeded the script ends with its status, 0.
\<close>

definition script :: "'w machine \<Rightarrow> nat \<Rightarrow> 'w \<Rightarrow> 'w outcome" where
  "script run n w =
     (case seq [provision run, bootstrap run n, transfer_check run] (start_shell w) of
        Next s \<Rightarrow> Exit 0 s
      | Exit rc s \<Rightarrow> Exit rc s
      | Waiting s \<Rightarrow> Waiting s)"

section \<open>Environments used as concrete inputs\<close>

text \<open>
  An environment without state: every command is answered by a fixed status, with no output.
\<close>

definition respond :: "(cmd \<Rightarrow> nat) \<Rightarrow> unit machine" where
  "respond f c w = ((f c, []), ())"

text \<open>Every command succeeds; in particular \<open>pgrep\<close> finds a \<open>bitcoind\<close> process each time.\<close>

definition never_exits :: "cmd \<Rightarrow> nat" where
  "never_exits c = 0"

text \<open>No process is left, Node 1 never answers \<open>getnetworkinfo\<close>, everything else succeeds.\<close>

definition node1_down :: "cmd \<Rightarrow> nat" where
  "node1_down c = (if c = Pgrep ''bitcoind'' \<or> c = Bitcoin_cli 1 Getnetworkinfo then 1 else 0)"

text \<open>
  No process is left and everything succeeds, except that \<open>createwallet wallet1\<close> fails with
  status 4, the status \<open>bitcoin-cli\<close> gives for the wallet error "already exists".
\<close>

definition wallet_exists :: "cmd \<Rightarrow> nat" where
  "wallet_exists c =
     (if c = Bitcoin_cli 1 (Createwallet ''wallet1'') then 4
      else if c = Pgrep ''bitcoind'' then 1 else 0)"

text \<open>
  Modelled from the spec: the Makefile and the node binaries are not among the sources, so
  this small test network stands for them where a concrete environment is needed (the
  witnesses and one counterexample); the theorems hold for every environment. \<open>stop\<close> asks
  the running processes to shut down, and they are gone a second later; \<open>start\<close> launches
  them, and their RPC servers answer two seconds later; \<open>clean\<close> removes the wallets;
  \<open>pgrep\<close> succeeds while the processes exist; RPC calls succeed on a serving node;
  creating a wallet that exists fails with status 4.
\<close>

record box =
  running :: bool
  stop_requested :: bool
  booting :: nat
  wallets :: "(nat \<times> string) list"

definition second_passes :: "box \<Rightarrow> box" where
  "second_passes b =
     (if stop_requested b then b\<lparr>running := False, stop_requested := False\<rparr>
      else b\<lparr>booting := booting b - 1\<rparr>)"

definition serving :: "box \<Rightarrow> bool" where
  "serving b = (running b \<and> \<not> stop_requested b \<and> booting b = 0)"

fun box_run :: "box machine" where
  "box_run (Make Stop) b =
     (if running b then ((0, []), b\<lparr>stop_requested := True\<rparr>) else ((2, []), b))"
| "box_run (Pgrep name) b = ((if running b then 0 else 1, []), b)"
| "box_run (Sleep k) b = ((0, []), (second_passes ^^ k) b)"
| "box_run (Make Clean) b = ((0, []), b\<lparr>wallets := []\<rparr>)"
| "box_run (Make Start) b =
     (if running b then ((2, []), b) else ((0, []), b\<lparr>running := True, booting := 2\<rparr>))"
| "box_run (Make t) b = ((if serving b then 0 else 2, []), b)"
| "box_run (Bitcoin_cli i (Createwallet name)) b =
     (if \<not> serving b then ((1, []), b)
      else if (i, name) \<in> set (wallets b) then ((4, []), b)
      else ((0, []), b\<lparr>wallets := (i, name) # wallets b\<rparr>))"
| "box_run (Bitcoin_cli i Getnewaddress) b =
     (if serving b then ((0, ''bcrt1qnode'' @ [CHR 0x0A]), b) else ((1, []), b))"
| "box_run (Bitcoin_cli i r) b = ((if serving b then 0 else 1, []), b)"
| "box_run Pwd b = ((0, ''/box'' @ [CHR 0x0A]), b)"
| "box_run c b = ((0, []), b)"

text \<open>Nothing runs, no wallet.\<close>

definition box_stopped :: box where
  "box_stopped = \<lparr>running = False, stop_requested = False, booting = 0, wallets = []\<rparr>"

text \<open>Both nodes run and serve, both wallets exist: the state Idle/Ready of the spec.\<close>

definition box_ready :: box where
  "box_ready =
     \<lparr>running = True, stop_requested = False, booting = 0,
      wallets = [(2, ''wallet2''), (1, ''wallet1'')]\<rparr>"

text \<open>The processes still exist, but have been asked to shut down.\<close>

definition box_stopping :: box where
  "box_stopping =
     \<lparr>running = True, stop_requested = True, booting = 0,
      wallets = [(2, ''wallet2''), (1, ''wallet1'')]\<rparr>"

text \<open>The events of the script on \<open>box_ready\<close>, up to \<open>make clean\<close> and after it.\<close>

definition ready_before_clean :: "event list" where
  "ready_before_clean =
     [(Pwd, 0), (Mkdir_p ''temp_bitcoin'', 0), (Mkdir_p ''/box/bin'', 0),
      (Command_v ''bitcoind'', 0), (Echo ''Bitcoin Core version:'', 0),
      (Bitcoind_version, 0), (Head_n 1, 0),
      (Echo ''Cleaning up previous run...'', 0), (Make Stop, 0),
      (Echo ''Waiting for bitcoind to stop...'', 0),
      (Pgrep ''bitcoind'', 0), (Sleep 1, 0), (Pgrep ''bitcoind'', 1)]"

definition ready_after_clean :: "event list" where
  "ready_after_clean =
     [(Echo ''Starting Testnet...'', 0), (Make Start, 0),
      (Echo ''Waiting for nodes to start...'', 0),
      (Bitcoin_cli 1 Getnetworkinfo, 1), (Sleep 1, 0),
      (Bitcoin_cli 1 Getnetworkinfo, 1), (Sleep 1, 0),
      (Bitcoin_cli 1 Getnetworkinfo, 0),
      (Bitcoin_cli 2 Getnetworkinfo, 0), (Sleep 2, 0),
      (Echo ''Creating wallets...'', 0),
      (Bitcoin_cli 1 (Createwallet ''wallet1''), 0),
      (Bitcoin_cli 2 (Createwallet ''wallet2''), 0),
      (Echo ''Generating 101 blocks to mature coinbase...'', 0),
      (Make (Generate 101), 0), (Echo ''Node 1 Info:'', 0), (Make Getinfo, 0),
      (Echo ''Generating address for Node 2...'', 0),
      (Bitcoin_cli 2 Getnewaddress, 0), (Echo ''Address 2: bcrt1qnode'', 0),
      (Echo ''Sending 10 BTC from Node 1 to Node 2...'', 0),
      (Bitcoin_cli 1 (Sendtoaddress ''bcrt1qnode'' 10 20), 0),
      (Echo ''Transaction ID: '', 0),
      (Echo ''Generating 1 block to confirm transaction...'', 0),
      (Make (Generate 1), 0), (Echo ''Verifying Balances...'', 0),
      (Bitcoin_cli 1 Getbalance, 0), (Echo ''Node 1 Balance: '', 0),
      (Bitcoin_cli 2 Getbalance, 0), (Echo ''Node 2 Balance: '', 0),
      (Echo ''Testnet check complete. Stopping nodes...'', 0), (Make Stop, 0)]"

text \<open>The events of the script on \<open>respond wallet_exists\<close>, up to the failing command.\<close>

definition before_wallet1 :: "event list" where
  "before_wallet1 =
     [(Pwd, 0), (Mkdir_p ''temp_bitcoin'', 0), (Mkdir_p ''/bin'', 0),
      (Command_v ''bitcoind'', 0), (Echo ''Bitcoin Core version:'', 0),
      (Bitcoind_version, 0), (Head_n 1, 0),
      (Echo ''Cleaning up previous run...'', 0), (Make Stop, 0),
      (Echo ''Waiting for bitcoind to stop...'', 0), (Pgrep ''bitcoind'', 1),
      (Make Clean, 0), (Echo ''Starting Testnet...'', 0), (Make Start, 0),
      (Echo ''Waiting for nodes to start...'', 0),
      (Bitcoin_cli 1 Getnetworkinfo, 0), (Bitcoin_cli 2 Getnetworkinfo, 0),
      (Sleep 2, 0), (Echo ''Creating wallets...'', 0)]"



text \<open>
  No process is left, but the output of the script cannot be written: every \<open>echo\<close> fails
  with status 1.
\<close>

fun is_echo :: "cmd \<Rightarrow> bool" where
  "is_echo (Echo line) = True"
| "is_echo c = False"


section \<open>The vocabulary of the properties\<close>

text \<open>The events a piece of the script adds to the trace.\<close>

definition issued :: "('w shell \<Rightarrow> 'w outcome) \<Rightarrow> 'w shell \<Rightarrow> event list" where
  "issued f s = drop (length (trace s)) (trace (final (f s)))"


text \<open>
  Modelled from the spec: the Makefile is missing, so which of its targets call a node's RPC
  interface is taken from the spec: \<open>generate\<close> is block generation and \<open>getinfo\<close> the info
  query. With the \<open>bitcoin-cli\<close> calls other than the liveness probe \<open>getnetworkinfo\<close> these
  are the RPC calls of the readiness invariant (wallet creation, block generation, address
  generation, send, balance and info queries).
\<close>

fun rpc_call :: "cmd \<Rightarrow> bool" where
  "rpc_call (Bitcoin_cli i r) = (r \<noteq> Getnetworkinfo)"
| "rpc_call (Make (Generate k)) = True"
| "rpc_call (Make Getinfo) = True"
| "rpc_call c = False"

text \<open>
  Modelled from the spec: the Makefile is missing, so what its targets ask of the nodes is
  taken from the spec (4.1, 4.2, 4.4). \<open>stop\<close> asks both nodes to shut down; \<open>generate\<close>
  with \<open>BLOCKS=k\<close> mines \<open>k\<close> blocks on Node 1, addressed to the mining identity of Node 1;
  \<open>getinfo\<close> queries both nodes; \<open>clean\<close> and \<open>start\<close> act on files and processes. A call
  is a node with what is asked of it; \<open>Mine k i\<close> is mining \<open>k\<close> blocks to the mining
  identity of node \<open>i\<close>.
\<close>

datatype node_call = Shut_down | Mine nat nat | Info








text \<open>
  The commands whose failure the script absorbs somewhere: \<open>make stop || true\<close>, the
  conditions of the loops and of the two \<open>if\<close>, the left side of the pipe, and the balance
  queries inside \<open>echo\<close>.
\<close>

fun absorbed :: "cmd \<Rightarrow> bool" where
  "absorbed (Make Stop) = True"
| "absorbed (Pgrep name) = True"
| "absorbed (Bitcoin_cli i Getnetworkinfo) = True"
| "absorbed (Bitcoin_cli i Getbalance) = True"
| "absorbed (Command_v name) = True"
| "absorbed (Test_not_f path) = True"
| "absorbed Bitcoind_version = True"
| "absorbed c = False"

text \<open>The number of times a polling loop has slept.\<close>

definition sleeps :: "event list \<Rightarrow> nat" where
  "sleeps evs = length (filter (\<lambda>e. fst e = Sleep 1) evs)"

section \<open>Reasoning about the traces of the script\<close>

text \<open>
  The properties below speak about the trace only, so the script is executed symbolically
  on traces: \<open>holds t f Q G\<close> says that \<open>f\<close>, started in any shell with trace \<open>t\<close>, either
  falls through with a trace satisfying \<open>Q\<close>, or ends or keeps waiting with a trace
  satisfying \<open>G\<close> (which also sees the exit status). \<open>answers run c rc\<close> records that the
  status of an event is one the environment can give.
\<close>

definition answers :: "'w machine \<Rightarrow> cmd \<Rightarrow> nat \<Rightarrow> bool" where
  "answers run c rc = (\<exists>w. status run c w = rc)"

definition post ::
  "(event list \<Rightarrow> bool) \<Rightarrow> (nat option \<Rightarrow> event list \<Rightarrow> bool) \<Rightarrow> 'w outcome \<Rightarrow> bool" where
  "post Q G r =
     (case r of
        Next s \<Rightarrow> Q (trace s)
      | Exit rc s \<Rightarrow> G (Some rc) (trace s)
      | Waiting s \<Rightarrow> G None (trace s))"

definition holds ::
  "event list \<Rightarrow> ('w shell \<Rightarrow> 'w outcome) \<Rightarrow> (event list \<Rightarrow> bool)
     \<Rightarrow> (nat option \<Rightarrow> event list \<Rightarrow> bool) \<Rightarrow> bool" where
  "holds t f Q G = (\<forall>s. trace s = t \<longrightarrow> post Q G (f s))"

text \<open>The events of the completed rounds of a polling loop: condition, body, condition, ...\<close>

fun rounds :: "(nat \<Rightarrow> bool) \<Rightarrow> cmd \<Rightarrow> cmd \<Rightarrow> event list \<Rightarrow> bool" where
  "rounds again c b [] = True"
| "rounds again c b [e] = False"
| "rounds again c b (e1 # e2 # evs) =
     (fst e1 = c \<and> again (snd e1) \<and> e2 = (b, 0) \<and> rounds again c b evs)"

text \<open>
  Each property is checked along the trace by a small monitor, a function folded over the
  events. \<open>guard_step\<close>: no \<open>make clean\<close> unless the event before it is a \<open>pgrep\<close> that found
  nothing.
\<close>

definition guard_step :: "bool \<times> bool \<Rightarrow> event \<Rightarrow> bool \<times> bool" where
  "guard_step m e =
     (fst m \<and> (fst e = Make Clean \<longrightarrow> snd m), fst e = Pgrep ''bitcoind'' \<and> snd e \<noteq> 0)"

text \<open>\<open>ready_step\<close>: no RPC call unless both nodes have answered a probe since the last start.\<close>

definition ready_step :: "bool \<times> bool \<times> bool \<Rightarrow> event \<Rightarrow> bool \<times> bool \<times> bool" where
  "ready_step m e =
     (fst m \<and> (rpc_call (fst e) \<longrightarrow> fst (snd m) \<and> snd (snd m)),
      fst e \<noteq> Make Start \<and> (fst (snd m) \<or> e = (Bitcoin_cli 1 Getnetworkinfo, 0)),
      fst e \<noteq> Make Start \<and> (snd (snd m) \<or> e = (Bitcoin_cli 2 Getnetworkinfo, 0)))"

text \<open>\<open>order_step\<close>: no probe of Node 2 unless Node 1 has answered a probe.\<close>

definition order_step :: "bool \<times> bool \<Rightarrow> event \<Rightarrow> bool \<times> bool" where
  "order_step m e =
     (fst m \<and> (fst e = Bitcoin_cli 2 Getnetworkinfo \<longrightarrow> snd m),
      snd m \<or> e = (Bitcoin_cli 1 Getnetworkinfo, 0))"

text \<open>
  \<open>fail_step\<close>: every event but the last has status 0 or is of an absorbed command;
  \<open>fail_end\<close> relates the last event to the way the script ended.
\<close>

definition fail_step :: "bool \<times> event option \<Rightarrow> event \<Rightarrow> bool \<times> event option" where
  "fail_step m e =
     (fst m \<and> (case snd m of None \<Rightarrow> True | Some l \<Rightarrow> snd l = 0 \<or> absorbed (fst l)), Some e)"

definition fail_end :: "nat option \<Rightarrow> event list \<Rightarrow> bool" where
  "fail_end x t =
     (let m = foldl fail_step (True, None) t in
      fst m \<and>
      (case x of
         None \<Rightarrow> (\<exists>c rc. snd m = Some (c, rc) \<and> absorbed c)
       | Some rc \<Rightarrow> (\<exists>c. snd m = Some (c, rc)) \<and> (rc = 0 \<longrightarrow> snd m = Some (Make Stop, 0))))"


text \<open>\<open>only_step P\<close>: every command satisfies \<open>P\<close>.\<close>

definition only_step :: "(cmd \<Rightarrow> bool) \<Rightarrow> bool \<Rightarrow> event \<Rightarrow> bool" where
  "only_step P m e = (m \<and> P (fst e))"

section \<open>The front-end log and the send guard\<close>

lemma logs_log_all:
  "length (logs st) \<le> 50 \<Longrightarrow> logs (log_all msgs st) = take 50 (rev msgs @ logs st)"
proof (induction msgs arbitrary: st)
  case Nil
  then show ?case by (simp add: log_all_def)
next
  case (Cons m ms)
  have short: "length (logs (log m st)) \<le> 50"
    by (simp add: log_def)
  have "logs (log_all (m # ms) st) = logs (log_all ms (log m st))"
    by (simp add: log_all_def)
  also have "\<dots> = take 50 (rev ms @ take 50 (m # logs st))"
    using Cons.IH [OF short] by (simp add: log_def)
  also have "\<dots> = take 50 (rev ms @ m # logs st)"
    by (simp add: take_Cons' min_def)
  finally show ?case by simp
qed

text \<open>
  C9. After any sequence of \<open>log\<close> calls on the initial state, the log holds the 50 most
  recent messages, the most recent first, and so at most 50 entries.
\<close>

theorem log_bounded_newest_first:
  "logs (log_all msgs (initial_app :: 'j app)) = take 50 (rev msgs)
   \<and> length (logs (log_all msgs (initial_app :: 'j app))) \<le> 50"
  by (simp add: logs_log_all initial_app_def)

text \<open>
  C10. With an empty target address, \<open>send\<close> sends no request at all (so none to
  \<open>/send\<close>), and changes the state only by logging the error message: \<open>amount\<close>,
  \<open>targetAddress\<close> and \<open>info\<close> are as before.
\<close>

theorem send_empty_address:
  assumes "targetAddress st = ''''"
  shows "send web st =
           (st\<lparr>logs := take 50 (''Error: No target address (generate one for Node 2 first)'' # logs st)\<rparr>, [])
         \<and> amount (fst (send web st)) = amount st
         \<and> targetAddress (fst (send web st)) = targetAddress st
         \<and> info (fst (send web st)) = info st
         \<and> genBlocks (fst (send web st)) = genBlocks st"
  using assms by (simp add: send_def log_def)

theorem send_empty_address_witness:
  "targetAddress (initial_app :: string app) = ''''
   \<and> snd (send \<lparr>fetch = (\<lambda>r. Inl ''down''), txid_of = (\<lambda>d. Inr None), stringify = id\<rparr>
             (initial_app :: string app)) = []
   \<and> logs (fst (send \<lparr>fetch = (\<lambda>r. Inl ''down''), txid_of = (\<lambda>d. Inr None), stringify = id\<rparr>
             (initial_app :: string app)))
       = [''Error: No target address (generate one for Node 2 first)'']"
proof -
  have h: "targetAddress (initial_app :: string app) = ''''"
    by (simp add: initial_app_def)
  show ?thesis
    using h send_empty_address [OF h, of "\<lparr>fetch = (\<lambda>r. Inl ''down''), txid_of = (\<lambda>d. Inr None), stringify = id\<rparr>"]
    by (simp add: initial_app_def)
qed

section \<open>Symbolic execution of the shell constructs\<close>

lemma exec_cases:
  obtains rc out s' where "exec run c s = (rc, out, s')" "trace s' = trace s @ [(c, rc)]"
    "answers run c rc"
proof -
  obtain rc out w' where r: "run c (world s) = ((rc, out), w')"
    by (metis surj_pair)
  have "exec run c s = (rc, out, s\<lparr>world := w', trace := trace s @ [(c, rc)]\<rparr>)"
    by (simp add: exec_def r)
  moreover have "answers run c rc"
    unfolding answers_def status_def using r by (metis fst_conv)
  ultimately show thesis
    using that by simp
qed

lemma holds_simple:
  assumes "\<And>rc. answers run c rc \<Longrightarrow> rc \<noteq> 0 \<Longrightarrow> G (Some rc) (t @ [(c, rc)])"
    and "answers run c 0 \<Longrightarrow> Q (t @ [(c, 0)])"
  shows "holds t (simple run c) Q G"
  unfolding holds_def
proof (intro allI impI)
  fix s :: "'a shell" assume t: "trace s = t"
  obtain rc out s' where e: "exec run c s = (rc, out, s')" "trace s' = trace s @ [(c, rc)]"
    "answers run c rc" by (rule exec_cases)
  show "post Q G (simple run c s)"
    using e t assms by (cases "rc = 0") (auto simp: simple_def post_def)
qed

lemma holds_or_true:
  assumes "\<And>rc. answers run c rc \<Longrightarrow> Q (t @ [(c, rc)])"
  shows "holds t (or_true run c) Q G"
  unfolding holds_def
proof (intro allI impI)
  fix s :: "'a shell" assume t: "trace s = t"
  obtain rc out s' where e: "exec run c s = (rc, out, s')" "trace s' = trace s @ [(c, rc)]"
    "answers run c rc" by (rule exec_cases)
  show "post Q G (or_true run c s)"
    using e t assms by (auto simp: or_true_def post_def)
qed

lemma holds_echo_subst:
  assumes "\<And>rc line. answers run c rc \<Longrightarrow> holds (t @ [(c, rc)]) (simple run (Echo line)) Q G"
  shows "holds t (echo_subst label run c) Q G"
  unfolding holds_def
proof (intro allI impI)
  fix s :: "'a shell" assume t: "trace s = t"
  obtain rc out s' where e: "exec run c s = (rc, out, s')" "trace s' = trace s @ [(c, rc)]"
    "answers run c rc" by (rule exec_cases)
  show "post Q G (echo_subst label run c s)"
    using e t assms [of rc "label @ chomp out"] by (simp add: echo_subst_def holds_def)
qed

lemma echo_eq: "echo run line = simple run (Echo line)"
  by (rule ext) (simp add: echo_def)

lemma holds_assign:
  assumes "\<And>x s. trace (setvar x s) = trace s"
    and "\<And>rc. answers run c rc \<Longrightarrow> rc \<noteq> 0 \<Longrightarrow> G (Some rc) (t @ [(c, rc)])"
    and "answers run c 0 \<Longrightarrow> Q (t @ [(c, 0)])"
  shows "holds t (assign run c setvar) Q G"
  unfolding holds_def
proof (intro allI impI)
  fix s :: "'a shell" assume t: "trace s = t"
  obtain rc out s' where e: "exec run c s = (rc, out, s')" "trace s' = trace s @ [(c, rc)]"
    "answers run c rc" by (rule exec_cases)
  show "post Q G (assign run c setvar s)"
    using e t assms by (cases "rc = 0") (auto simp: assign_def post_def)
qed

lemma holds_if_not:
  assumes "\<And>rc. answers run c rc \<Longrightarrow> rc \<noteq> 0 \<Longrightarrow> holds (t @ [(c, rc)]) body Q G"
    and "answers run c 0 \<Longrightarrow> Q (t @ [(c, 0)])"
  shows "holds t (if_not run c body) Q G"
  unfolding holds_def
proof (intro allI impI)
  fix s :: "'a shell" assume t: "trace s = t"
  obtain rc out s' where e: "exec run c s = (rc, out, s')" "trace s' = trace s @ [(c, rc)]"
    "answers run c rc" by (rule exec_cases)
  show "post Q G (if_not run c body s)"
    using e t assms by (cases "rc = 0") (auto simp: if_not_def post_def holds_def)
qed

lemma holds_if_then:
  assumes "answers run c 0 \<Longrightarrow> holds (t @ [(c, 0)]) body Q G"
    and "\<And>rc. answers run c rc \<Longrightarrow> rc \<noteq> 0 \<Longrightarrow> Q (t @ [(c, rc)])"
  shows "holds t (if_then run c body) Q G"
  unfolding holds_def
proof (intro allI impI)
  fix s :: "'a shell" assume t: "trace s = t"
  obtain rc out s' where e: "exec run c s = (rc, out, s')" "trace s' = trace s @ [(c, rc)]"
    "answers run c rc" by (rule exec_cases)
  show "post Q G (if_then run c body s)"
    using e t assms by (cases "rc = 0") (auto simp: if_then_def post_def holds_def)
qed

text \<open>A command built from a variable of the shell.\<close>

lemma holds_simple_dep:
  "(\<And>s0. holds t (simple run (c s0)) Q G) \<Longrightarrow> holds t (\<lambda>s. simple run (c s) s) Q G"
  by (simp add: holds_def)

lemma holds_assign_dep:
  "(\<And>s0. holds t (assign run (c s0) setvar) Q G)
   \<Longrightarrow> holds t (\<lambda>s. assign run (c s) setvar s) Q G"
  by (simp add: holds_def)

lemma holds_if_then_dep:
  "(\<And>s0. holds t (if_then run (c s0) body) Q G)
   \<Longrightarrow> holds t (\<lambda>s. if_then run (c s) body s) Q G"
  by (simp add: holds_def)

lemma holds_seq_nil: "Q t \<Longrightarrow> holds t (seq []) Q G"
  by (simp add: holds_def post_def)

lemma holds_seq_cons:
  assumes "holds t f (\<lambda>t'. holds t' (seq fs) Q G) G"
  shows "holds t (seq (f # fs)) Q G"
  unfolding holds_def
proof (intro allI impI)
  fix s :: "'a shell" assume t: "trace s = t"
  from assms t have p: "post (\<lambda>t'. holds t' (seq fs) Q G) G (f s)"
    by (simp add: holds_def)
  show "post Q G (seq (f # fs) s)"
    using p by (cases "f s") (auto simp: post_def holds_def)
qed

text \<open>
  The loops, by induction on the budget: the trace is extended by completed rounds (whose
  statuses are ones the environment gives) and then by the event that ends the loop, ends
  the script, or finds the budget used up.
\<close>

lemma holds_while_do:
  assumes "\<And>evs rc. rounds (\<lambda>r. r = 0 \<and> answers run c r) c b evs \<Longrightarrow> rc \<noteq> 0 \<Longrightarrow> answers run c rc
             \<Longrightarrow> Q (t @ evs @ [(c, rc)])"
    and "\<And>evs rc. rounds (\<lambda>r. r = 0 \<and> answers run c r) c b evs \<Longrightarrow> rc \<noteq> 0 \<Longrightarrow> answers run b rc
             \<Longrightarrow> G (Some rc) (t @ evs @ [(c, 0), (b, rc)])"
    and "\<And>evs. rounds (\<lambda>r. r = 0 \<and> answers run c r) c b evs \<Longrightarrow> length evs = 2 * n \<Longrightarrow> answers run c 0
             \<Longrightarrow> G None (t @ evs @ [(c, 0)])"
  shows "holds t (while_do run c b n) Q G"
  using assms
proof (induction n arbitrary: t)
  case 0
  show ?case
    unfolding holds_def
  proof (intro allI impI)
    fix s :: "'a shell" assume t: "trace s = t"
    obtain rc out s' where e: "exec run c s = (rc, out, s')" "trace s' = trace s @ [(c, rc)]"
      "answers run c rc" by (rule exec_cases)
    show "post Q G (while_do run c b 0 s)"
      using e t "0.prems"(1) [of "[]" rc] "0.prems"(3) [of "[]"]
      by (cases "rc = 0") (auto simp: post_def)
  qed
next
  case (Suc n)
  show ?case
    unfolding holds_def
  proof (intro allI impI)
    fix s :: "'a shell" assume t: "trace s = t"
    obtain rc out s' where e: "exec run c s = (rc, out, s')" "trace s' = trace s @ [(c, rc)]"
      "answers run c rc" by (rule exec_cases)
    show "post Q G (while_do run c b (Suc n) s)"
    proof (cases "rc = 0")
      case False
      then show ?thesis
        using e t Suc.prems(1) [of "[]" rc] by (auto simp: post_def)
    next
      case True
      obtain rc' out' s'' where e': "exec run b s' = (rc', out', s'')"
        "trace s'' = trace s' @ [(b, rc')]" "answers run b rc'" by (rule exec_cases)
      show ?thesis
      proof (cases "rc' = 0")
        case False
        then show ?thesis
          using e e' t True Suc.prems(2) [of "[]" rc'] by (auto simp: post_def simple_def)
      next
        case z: True
        have "holds (t @ [(c, 0), (b, 0)]) (while_do run c b n) Q G"
        proof (rule Suc.IH)
          fix evs rc assume "rounds (\<lambda>r. r = 0 \<and> answers run c r) c b evs" "rc \<noteq> 0" "answers run c rc"
          then show "Q ((t @ [(c, 0), (b, 0)]) @ evs @ [(c, rc)])"
            using Suc.prems(1) [of "(c, 0) # (b, 0) # evs" rc] e(3) True by simp
        next
          fix evs rc assume "rounds (\<lambda>r. r = 0 \<and> answers run c r) c b evs" "rc \<noteq> 0" "answers run b rc"
          then show "G (Some rc) ((t @ [(c, 0), (b, 0)]) @ evs @ [(c, 0), (b, rc)])"
            using Suc.prems(2) [of "(c, 0) # (b, 0) # evs" rc] e(3) True by simp
        next
          fix evs assume "rounds (\<lambda>r. r = 0 \<and> answers run c r) c b evs" "length evs = 2 * n" "answers run c 0"
          then show "G None ((t @ [(c, 0), (b, 0)]) @ evs @ [(c, 0)])"
            using Suc.prems(3) [of "(c, 0) # (b, 0) # evs"] e(3) True by simp
        qed
        then have "post Q G (while_do run c b n s'')"
          using e e' t True z by (simp add: holds_def)
        then show ?thesis
          using e e' True z by (simp add: simple_def)
      qed
    qed
  qed
qed

lemma holds_until_do:
  assumes "\<And>evs. rounds (\<lambda>r. r \<noteq> 0 \<and> answers run c r) c b evs \<Longrightarrow> answers run c 0
             \<Longrightarrow> Q (t @ evs @ [(c, 0)])"
    and "\<And>evs rc rc'. rounds (\<lambda>r. r \<noteq> 0 \<and> answers run c r) c b evs \<Longrightarrow> rc \<noteq> 0 \<Longrightarrow> rc' \<noteq> 0
             \<Longrightarrow> answers run c rc \<Longrightarrow> answers run b rc'
             \<Longrightarrow> G (Some rc') (t @ evs @ [(c, rc), (b, rc')])"
    and "\<And>evs rc. rounds (\<lambda>r. r \<noteq> 0 \<and> answers run c r) c b evs \<Longrightarrow> length evs = 2 * n \<Longrightarrow> rc \<noteq> 0
             \<Longrightarrow> answers run c rc \<Longrightarrow> G None (t @ evs @ [(c, rc)])"
  shows "holds t (until_do run c b n) Q G"
  using assms
proof (induction n arbitrary: t)
  case 0
  show ?case
    unfolding holds_def
  proof (intro allI impI)
    fix s :: "'a shell" assume t: "trace s = t"
    obtain rc out s' where e: "exec run c s = (rc, out, s')" "trace s' = trace s @ [(c, rc)]"
      "answers run c rc" by (rule exec_cases)
    show "post Q G (until_do run c b 0 s)"
      using e t "0.prems"(1) [of "[]"] "0.prems"(3) [of "[]" rc]
      by (cases "rc = 0") (auto simp: post_def)
  qed
next
  case (Suc n)
  show ?case
    unfolding holds_def
  proof (intro allI impI)
    fix s :: "'a shell" assume t: "trace s = t"
    obtain rc out s' where e: "exec run c s = (rc, out, s')" "trace s' = trace s @ [(c, rc)]"
      "answers run c rc" by (rule exec_cases)
    show "post Q G (until_do run c b (Suc n) s)"
    proof (cases "rc = 0")
      case True
      then show ?thesis
        using e t Suc.prems(1) [of "[]"] by (auto simp: post_def)
    next
      case False
      obtain rc' out' s'' where e': "exec run b s' = (rc', out', s'')"
        "trace s'' = trace s' @ [(b, rc')]" "answers run b rc'" by (rule exec_cases)
      show ?thesis
      proof (cases "rc' = 0")
        case nz: False
        then show ?thesis
          using e e' t False Suc.prems(2) [of "[]" rc rc'] by (auto simp: post_def simple_def)
      next
        case z: True
        have "holds (t @ [(c, rc), (b, 0)]) (until_do run c b n) Q G"
        proof (rule Suc.IH)
          fix evs assume "rounds (\<lambda>r. r \<noteq> 0 \<and> answers run c r) c b evs" "answers run c 0"
          then show "Q ((t @ [(c, rc), (b, 0)]) @ evs @ [(c, 0)])"
            using Suc.prems(1) [of "(c, rc) # (b, 0) # evs"] e(3) False by simp
        next
          fix evs r r' assume "rounds (\<lambda>r. r \<noteq> 0 \<and> answers run c r) c b evs" "r \<noteq> 0" "r' \<noteq> 0"
            "answers run c r" "answers run b r'"
          then show "G (Some r') ((t @ [(c, rc), (b, 0)]) @ evs @ [(c, r), (b, r')])"
            using Suc.prems(2) [of "(c, rc) # (b, 0) # evs" r r'] e(3) False by simp
        next
          fix evs r assume "rounds (\<lambda>r. r \<noteq> 0 \<and> answers run c r) c b evs" "length evs = 2 * n" "r \<noteq> 0"
            "answers run c r"
          then show "G None ((t @ [(c, rc), (b, 0)]) @ evs @ [(c, r)])"
            using Suc.prems(3) [of "(c, rc) # (b, 0) # evs" r] e(3) False by simp
        qed
        then have "post Q G (until_do run c b n s'')"
          using e e' t z by (simp add: holds_def)
        then show ?thesis
          using e e' False z by (simp add: simple_def)
      qed
    qed
  qed
qed

lemmas holds_rules =
  holds_seq_cons holds_seq_nil holds_simple holds_simple_dep holds_or_true
  holds_echo_subst holds_assign holds_assign_dep holds_if_not holds_if_then
  holds_if_then_dep holds_while_do holds_until_do

lemma holdsD: "holds (trace s) f Q G \<Longrightarrow> post Q G (f s)"
  by (simp add: holds_def)

lemma script_post:
  assumes "holds [] (seq [provision run, bootstrap run n, transfer_check run]) Q G"
    and "\<And>t. Q t \<Longrightarrow> G (Some 0) t"
  shows "G (exit_status (script run n w)) (trace (final (script run n w)))"
proof -
  have "post Q G (seq [provision run, bootstrap run n, transfer_check run] (start_shell w))"
    using assms(1) by (simp add: holds_def start_shell_def)
  then show ?thesis
    using assms(2)
    by (cases "seq [provision run, bootstrap run n, transfer_check run] (start_shell w)")
       (auto simp: post_def script_def)
qed

lemma never_answers_0: "\<forall>w. status run c w \<noteq> 0 \<Longrightarrow> answers run c 0 = False"
  by (auto simp: answers_def)

lemma always_answers_0: "\<forall>w. status run c w = 0 \<Longrightarrow> rc \<noteq> 0 \<Longrightarrow> answers run c rc = False"
  by (auto simp: answers_def)

text \<open>
  The script section by section: each section is executed from any trace that satisfies
  the assertion the section before it establishes.
\<close>

lemma holdsI: "(\<And>s. trace s = t \<Longrightarrow> post Q G (f s)) \<Longrightarrow> holds t f Q G"
  by (simp add: holds_def)

lemma holds_then:
  assumes "holds t f Q1 G" and "\<And>t'. Q1 t' \<Longrightarrow> holds t' (seq fs) Q G"
  shows "holds t (seq (f # fs)) Q G"
proof (rule holds_seq_cons, rule holdsI)
  fix s :: "'a shell" assume "trace s = t"
  with assms(1) have "post Q1 G (f s)"
    by (simp add: holds_def)
  then show "post (\<lambda>t'. holds t' (seq fs) Q G) G (f s)"
    using assms(2) by (cases "f s") (auto simp: post_def)
qed

lemma script_sections:
  assumes "A []"
    and "\<And>t. A t \<Longrightarrow> holds t (provision run) B G"
    and "\<And>t. B t \<Longrightarrow> holds t (bootstrap run n) C G"
    and "\<And>t. C t \<Longrightarrow> holds t (transfer_check run) Q G"
    and "\<And>t. Q t \<Longrightarrow> G (Some 0) t"
  shows "G (exit_status (script run n w)) (trace (final (script run n w)))"
proof -
  have "holds [] (seq [provision run, bootstrap run n, transfer_check run]) Q G"
  proof (rule holds_then [OF assms(2) [OF assms(1)]])
    fix t1 assume b: "B t1"
    show "holds t1 (seq [bootstrap run n, transfer_check run]) Q G"
    proof (rule holds_then [OF assms(3) [OF b]])
      fix t2 assume c: "C t2"
      show "holds t2 (seq [transfer_check run]) Q G"
        by (rule holds_then [OF assms(4) [OF c]]) (rule holds_seq_nil)
    qed
  qed
  then show ?thesis
    by (rule script_post) (rule assms(5))
qed

section \<open>The script on the concrete environments\<close>

lemmas script_defs =
  script_def provision_def bootstrap_def stop_and_wait_def transfer_check_def start_shell_def
  simple_def or_true_def echo_def assign_def echo_subst_def if_not_def if_then_def exec_def
  chomp_def TEMP_DIR_def BITCOIN_VERSION_def BITCOIN_TAR_def BITCOIN_URL_def

lemmas box_defs =
  box_ready_def box_stopped_def box_stopping_def second_passes_def serving_def
  ready_before_clean_def ready_after_clean_def

lemma box_ready_script:
  "\<exists>s. script box_run 5 box_ready = Exit 0 s
       \<and> trace s = ready_before_clean @ (Make Clean, 0) # ready_after_clean
       \<and> world s = box_stopping"
  by (simp add: script_defs box_defs eval_nat_numeral)

lemma box_ready_trace:
  "trace (final (script box_run 5 box_ready))
     = ready_before_clean @ (Make Clean, 0) # ready_after_clean"
  using box_ready_script by auto

lemma box_ready_exit: "exit_status (script box_run 5 box_ready) = Some 0"
  using box_ready_script by auto

lemma answers_respond: "answers (respond f) c rc = (rc = f c)"
  by (auto simp: answers_def status_def respond_def)

lemma status_respond: "status (respond f) c w = f c"
  by (simp add: status_def respond_def)

section \<open>Cleaning only after the processes are gone\<close>

lemma guard_rounds:
  "rounds again c b evs \<Longrightarrow> c \<noteq> Make Clean \<Longrightarrow> b \<noteq> Make Clean
   \<Longrightarrow> fst (foldl guard_step m evs) = fst m"
  by (induction again c b evs arbitrary: m rule: rounds.induct) (auto simp: guard_step_def)

lemma guard_provision:
  assumes "fst (foldl guard_step m0 t)"
  shows "holds t (provision run)
     (\<lambda>t'. fst (foldl guard_step m0 t')) (\<lambda>x t'. fst (foldl guard_step m0 t'))"
  unfolding provision_def echo_eq
  apply (intro holds_rules)
  using assms
  apply (simp_all add: guard_step_def)
  done

lemma guard_bootstrap:
  assumes "fst (foldl guard_step m0 t)"
  shows "holds t (bootstrap run n)
     (\<lambda>t'. fst (foldl guard_step m0 t')) (\<lambda>x t'. fst (foldl guard_step m0 t'))"
  unfolding bootstrap_def stop_and_wait_def echo_eq
  apply (intro holds_rules)
  using assms
  apply (simp_all add: guard_step_def guard_rounds)
  done

lemma guard_transfer:
  assumes "fst (foldl guard_step m0 t)"
  shows "holds t (transfer_check run)
     (\<lambda>t'. fst (foldl guard_step m0 t')) (\<lambda>x t'. fst (foldl guard_step m0 t'))"
  unfolding transfer_check_def echo_eq
  apply (intro holds_rules)
  using assms
  apply (simp_all add: guard_step_def)
  done

lemma guard_script: "fst (foldl guard_step (True, False) (trace (final (script run n w))))"
proof (rule script_sections
    [where A = "\<lambda>t. fst (foldl guard_step (True, False) t)"
       and B = "\<lambda>t. fst (foldl guard_step (True, False) t)"
       and C = "\<lambda>t. fst (foldl guard_step (True, False) t)"
       and Q = "\<lambda>t. fst (foldl guard_step (True, False) t)"
       and G = "\<lambda>x t. fst (foldl guard_step (True, False) t)"])
qed (simp_all add: guard_provision guard_bootstrap guard_transfer)

lemma guard_fst_mono: "fst (foldl guard_step m evs) \<Longrightarrow> fst m"
proof (induction evs arbitrary: m)
  case Nil
  then show ?case by simp
next
  case (Cons e evs)
  then have "fst (guard_step m e)" by simp
  then show ?case by (simp add: guard_step_def)
qed

lemma guard_snd_last:
  "snd (foldl guard_step (a, False) pre)
   \<Longrightarrow> \<exists>pre' k. pre = pre' @ [(Pgrep ''bitcoind'', k)] \<and> k \<noteq> 0"
  by (cases pre rule: rev_cases) (auto simp: guard_step_def)

text \<open>
  C1. In every run of the script, whatever the environment answers and however long the
  run is observed, each \<open>make clean\<close> comes directly after a \<open>pgrep bitcoind\<close> that found no
  process (non-zero status): the wait has succeeded, and no command lies between its last
  probe and the cleaning.
\<close>

theorem clean_only_after_no_process:
  assumes "trace (final (script run n w)) = pre @ (Make Clean, rc) # rest"
  shows "\<exists>pre' k. pre = pre' @ [(Pgrep ''bitcoind'', k)] \<and> k \<noteq> 0"
proof -
  have "fst (foldl guard_step (True, False) (pre @ (Make Clean, rc) # rest))"
    using guard_script [of run n w] assms by simp
  then have "fst (foldl guard_step
                (guard_step (foldl guard_step (True, False) pre) (Make Clean, rc)) rest)"
    by simp
  then have "fst (guard_step (foldl guard_step (True, False) pre) (Make Clean, rc))"
    by (rule guard_fst_mono)
  then have "snd (foldl guard_step (True, False) pre)"
    by (simp add: guard_step_def)
  then show ?thesis
    by (rule guard_snd_last)
qed

theorem clean_only_after_no_process_witness:
  "trace (final (script box_run 5 box_ready))
     = ready_before_clean @ (Make Clean, 0) # ready_after_clean
   \<and> (\<exists>pre' k. ready_before_clean = pre' @ [(Pgrep ''bitcoind'', k)] \<and> k \<noteq> 0)"
  using box_ready_trace clean_only_after_no_process [OF box_ready_trace] by simp

section \<open>RPC calls only after the readiness probes\<close>

lemma ready_rounds:
  "rounds again c b evs \<Longrightarrow> \<not> rpc_call c \<Longrightarrow> \<not> rpc_call b \<Longrightarrow> c \<noteq> Make Start
   \<Longrightarrow> b \<noteq> Make Start
   \<Longrightarrow> fst (foldl ready_step m evs) = fst m
       \<and> (fst (snd m) \<longrightarrow> fst (snd (foldl ready_step m evs)))
       \<and> (snd (snd m) \<longrightarrow> snd (snd (foldl ready_step m evs)))"
  by (induction again c b evs arbitrary: m rule: rounds.induct) (auto simp: ready_step_def)

lemma ready_provision:
  assumes "fst (foldl ready_step m0 t)"
  shows "holds t (provision run)
     (\<lambda>t'. fst (foldl ready_step m0 t')) (\<lambda>x t'. fst (foldl ready_step m0 t'))"
  unfolding provision_def echo_eq
  apply (intro holds_rules)
  using assms
  apply (simp_all add: ready_step_def)
  done

lemma ready_bootstrap:
  assumes "fst (foldl ready_step m0 t)"
  shows "holds t (bootstrap run n)
     (\<lambda>t'. fst (foldl ready_step m0 t') \<and> fst (snd (foldl ready_step m0 t'))
            \<and> snd (snd (foldl ready_step m0 t')))
     (\<lambda>x t'. fst (foldl ready_step m0 t'))"
  unfolding bootstrap_def stop_and_wait_def echo_eq
  apply (intro holds_rules)
  using assms
  apply (simp_all add: ready_step_def ready_rounds)
  done

lemma ready_transfer:
  assumes "fst (foldl ready_step m0 t) \<and> fst (snd (foldl ready_step m0 t))
            \<and> snd (snd (foldl ready_step m0 t))"
  shows "holds t (transfer_check run)
     (\<lambda>t'. fst (foldl ready_step m0 t')) (\<lambda>x t'. fst (foldl ready_step m0 t'))"
  unfolding transfer_check_def echo_eq
  apply (intro holds_rules)
  using assms
  apply (simp_all add: ready_step_def)
  done

lemma ready_script:
  "fst (foldl ready_step (True, False, False) (trace (final (script run n w))))"
proof (rule script_sections
    [where A = "\<lambda>t. fst (foldl ready_step (True, False, False) t)"
       and B = "\<lambda>t. fst (foldl ready_step (True, False, False) t)"
       and C = "\<lambda>t. fst (foldl ready_step (True, False, False) t)
                  \<and> fst (snd (foldl ready_step (True, False, False) t))
                  \<and> snd (snd (foldl ready_step (True, False, False) t))"
       and Q = "\<lambda>t. fst (foldl ready_step (True, False, False) t)"
       and G = "\<lambda>x t. fst (foldl ready_step (True, False, False) t)"])
qed (simp_all add: ready_provision ready_bootstrap ready_transfer)

lemma ready_fst_mono: "fst (foldl ready_step m evs) \<Longrightarrow> fst m"
proof (induction evs arbitrary: m)
  case Nil
  then show ?case by simp
next
  case (Cons e evs)
  then have "fst (ready_step m e)" by simp
  then show ?case by (simp add: ready_step_def)
qed

lemma ready1_origin:
  "fst (snd (foldl ready_step (a, False, r) pre))
   \<Longrightarrow> \<exists>x y. pre = x @ (Bitcoin_cli 1 Getnetworkinfo, 0) # y \<and> Make Start \<notin> fst ` set y"
proof (induction pre rule: rev_induct)
  case Nil
  then show ?case by simp
next
  case (snoc e pre)
  show ?case
  proof (cases "e = (Bitcoin_cli 1 Getnetworkinfo, 0)")
    case True
    then have "pre @ [e] = pre @ (Bitcoin_cli 1 Getnetworkinfo, 0) # [] \<and> Make Start \<notin> fst ` set []"
      by simp
    then show ?thesis by blast
  next
    case False
    define m where "m = foldl ready_step (a, False, r) pre"
    from snoc.prems have "fst (snd (ready_step m e))"
      by (simp add: m_def)
    with False have "fst e \<noteq> Make Start \<and> fst (snd m)"
      by (simp add: ready_step_def)
    then have ns: "fst e \<noteq> Make Start"
      and r: "fst (snd (foldl ready_step (a, False, r) pre))"
      by (simp_all add: m_def)
    from snoc.IH [OF r] obtain x y
      where "pre = x @ (Bitcoin_cli 1 Getnetworkinfo, 0) # y" "Make Start \<notin> fst ` set y"
      by blast
    with ns have "pre @ [e] = x @ (Bitcoin_cli 1 Getnetworkinfo, 0) # (y @ [e])
        \<and> Make Start \<notin> fst ` set (y @ [e])"
      by auto
    then show ?thesis by blast
  qed
qed

lemma ready2_origin:
  "snd (snd (foldl ready_step (a, r, False) pre))
   \<Longrightarrow> \<exists>x y. pre = x @ (Bitcoin_cli 2 Getnetworkinfo, 0) # y \<and> Make Start \<notin> fst ` set y"
proof (induction pre rule: rev_induct)
  case Nil
  then show ?case by simp
next
  case (snoc e pre)
  show ?case
  proof (cases "e = (Bitcoin_cli 2 Getnetworkinfo, 0)")
    case True
    then have "pre @ [e] = pre @ (Bitcoin_cli 2 Getnetworkinfo, 0) # [] \<and> Make Start \<notin> fst ` set []"
      by simp
    then show ?thesis by blast
  next
    case False
    define m where "m = foldl ready_step (a, r, False) pre"
    from snoc.prems have "snd (snd (ready_step m e))"
      by (simp add: m_def)
    with False have "fst e \<noteq> Make Start \<and> snd (snd m)"
      by (simp add: ready_step_def)
    then have ns: "fst e \<noteq> Make Start"
      and r: "snd (snd (foldl ready_step (a, r, False) pre))"
      by (simp_all add: m_def)
    from snoc.IH [OF r] obtain x y
      where "pre = x @ (Bitcoin_cli 2 Getnetworkinfo, 0) # y" "Make Start \<notin> fst ` set y"
      by blast
    with ns have "pre @ [e] = x @ (Bitcoin_cli 2 Getnetworkinfo, 0) # (y @ [e])
        \<and> Make Start \<notin> fst ` set (y @ [e])"
      by auto
    then show ?thesis by blast
  qed
qed

text \<open>
  C2. In every run of the script, each RPC call (wallet creation, block generation, address
  generation, send, balance and info queries) comes after a successful \<open>getnetworkinfo\<close> of
  Node 1 and after one of Node 2, with no \<open>make start\<close> between the probe and the call. So
  the node called has answered a liveness probe since the last start, and wallet creation
  begins only when both readiness checks have succeeded.
\<close>

theorem rpc_only_after_ready:
  assumes "trace (final (script run n w)) = pre @ (c, rc) # rest" and "rpc_call c"
  shows "(\<exists>x y. pre = x @ (Bitcoin_cli 1 Getnetworkinfo, 0) # y \<and> Make Start \<notin> fst ` set y)
       \<and> (\<exists>x y. pre = x @ (Bitcoin_cli 2 Getnetworkinfo, 0) # y \<and> Make Start \<notin> fst ` set y)"
proof -
  have "fst (foldl ready_step (True, False, False) (pre @ (c, rc) # rest))"
    using ready_script [of run n w] assms(1) by simp
  then have "fst (foldl ready_step
                (ready_step (foldl ready_step (True, False, False) pre) (c, rc)) rest)"
    by simp
  then have "fst (ready_step (foldl ready_step (True, False, False) pre) (c, rc))"
    by (rule ready_fst_mono)
  with assms(2) have "fst (snd (foldl ready_step (True, False, False) pre))"
    and "snd (snd (foldl ready_step (True, False, False) pre))"
    by (simp_all add: ready_step_def)
  then show ?thesis
    using ready1_origin ready2_origin by blast
qed

theorem rpc_only_after_ready_witness:
  "trace (final (script box_run 5 box_ready))
     = (ready_before_clean @ (Make Clean, 0) # take 11 ready_after_clean)
        @ (Bitcoin_cli 1 (Createwallet ''wallet1''), 0) # drop 12 ready_after_clean
   \<and> rpc_call (Bitcoin_cli 1 (Createwallet ''wallet1''))
   \<and> (\<exists>x y. ready_before_clean @ (Make Clean, 0) # take 11 ready_after_clean
              = x @ (Bitcoin_cli 1 Getnetworkinfo, 0) # y \<and> Make Start \<notin> fst ` set y)
   \<and> (\<exists>x y. ready_before_clean @ (Make Clean, 0) # take 11 ready_after_clean
              = x @ (Bitcoin_cli 2 Getnetworkinfo, 0) # y \<and> Make Start \<notin> fst ` set y)"
proof -
  have h: "trace (final (script box_run 5 box_ready))
     = (ready_before_clean @ (Make Clean, 0) # take 11 ready_after_clean)
        @ (Bitcoin_cli 1 (Createwallet ''wallet1''), 0) # drop 12 ready_after_clean"
    by (simp add: box_ready_trace) (simp add: ready_after_clean_def)
  have r: "rpc_call (Bitcoin_cli 1 (Createwallet ''wallet1''))"
    by simp
  show ?thesis
    using h r rpc_only_after_ready [OF h r] by blast
qed

section \<open>Monitors that only restrict the commands\<close>

lemma only_rounds:
  "rounds again c b evs \<Longrightarrow> P c \<Longrightarrow> P b \<Longrightarrow> foldl (only_step P) m evs = m"
  by (induction again c b evs arbitrary: m rule: rounds.induct) (auto simp: only_step_def)

lemma only_all: "foldl (only_step P) m evs \<Longrightarrow> m \<and> (\<forall>e\<in>set evs. P (fst e))"
proof (induction evs arbitrary: m)
  case Nil
  then show ?case by simp
next
  case (Cons e evs)
  from Cons.prems have "foldl (only_step P) (only_step P m e) evs"
    by simp
  from Cons.IH [OF this] show ?case
    by (auto simp: only_step_def)
qed

lemma sleeps_Nil: "sleeps [] = 0"
  by (simp add: sleeps_def)

lemma sleeps_Cons: "sleeps (e # evs) = (if fst e = Sleep 1 then Suc (sleeps evs) else sleeps evs)"
  by (simp add: sleeps_def)

lemma sleeps_append: "sleeps (xs @ ys) = sleeps xs + sleeps ys"
  by (simp add: sleeps_def)

lemma sleeps_rounds:
  "rounds again c b evs \<Longrightarrow> c \<noteq> Sleep 1 \<Longrightarrow> b = Sleep 1 \<Longrightarrow> sleeps evs = length evs div 2"
  by (induction again c b evs rule: rounds.induct) (auto simp: sleeps_Cons sleeps_Nil)

lemmas sleeps_simps = sleeps_Nil sleeps_Cons sleeps_append sleeps_rounds

lemma rounds_never: "(\<And>r. \<not> again r) \<Longrightarrow> rounds again c b evs = (evs = [])"
  by (induction again c b evs rule: rounds.induct) auto

lemma rounds_clash_while: "rounds (\<lambda>r. r = 0 \<and> r = Suc k) c b evs = (evs = [])"
  by (rule rounds_never) auto

lemma rounds_clash_until: "rounds (\<lambda>r. 0 < r \<and> r = 0) c b evs = (evs = [])"
  by (rule rounds_never) auto

lemmas rounds_clash = rounds_clash_while rounds_clash_until

section \<open>The two readiness waits\<close>

lemma order_rounds:
  "rounds again c b evs \<Longrightarrow> b \<noteq> Bitcoin_cli 2 Getnetworkinfo
   \<Longrightarrow> (c = Bitcoin_cli 2 Getnetworkinfo \<longrightarrow> snd m)
   \<Longrightarrow> fst (foldl order_step m evs) = fst m \<and> (snd m \<longrightarrow> snd (foldl order_step m evs))"
  by (induction again c b evs arbitrary: m rule: rounds.induct) (auto simp: order_step_def)

lemma order_provision:
  assumes "fst (foldl order_step m0 t)"
  shows "holds t (provision run)
     (\<lambda>t'. fst (foldl order_step m0 t')) (\<lambda>x t'. fst (foldl order_step m0 t'))"
  unfolding provision_def echo_eq
  apply (intro holds_rules)
  using assms
  apply (simp_all add: order_step_def)
  done

lemma order_bootstrap:
  assumes "fst (foldl order_step m0 t)"
  shows "holds t (bootstrap run n)
     (\<lambda>t'. fst (foldl order_step m0 t')) (\<lambda>x t'. fst (foldl order_step m0 t'))"
  unfolding bootstrap_def stop_and_wait_def echo_eq
  apply (intro holds_rules)
  using assms
  apply (simp_all add: order_step_def order_rounds)
  done

lemma order_transfer:
  assumes "fst (foldl order_step m0 t)"
  shows "holds t (transfer_check run)
     (\<lambda>t'. fst (foldl order_step m0 t')) (\<lambda>x t'. fst (foldl order_step m0 t'))"
  unfolding transfer_check_def echo_eq
  apply (intro holds_rules)
  using assms
  apply (simp_all add: order_step_def)
  done

lemma order_script: "fst (foldl order_step (True, False) (trace (final (script run n w))))"
proof (rule script_sections
    [where A = "\<lambda>t. fst (foldl order_step (True, False) t)"
       and B = "\<lambda>t. fst (foldl order_step (True, False) t)"
       and C = "\<lambda>t. fst (foldl order_step (True, False) t)"
       and Q = "\<lambda>t. fst (foldl order_step (True, False) t)"
       and G = "\<lambda>x t. fst (foldl order_step (True, False) t)"])
qed (simp_all add: order_provision order_bootstrap order_transfer)

lemma order_fst_mono: "fst (foldl order_step m evs) \<Longrightarrow> fst m"
proof (induction evs arbitrary: m)
  case Nil
  then show ?case by simp
next
  case (Cons e evs)
  then have "fst (order_step m e)" by simp
  then show ?case by (simp add: order_step_def)
qed

lemma order_snd_origin:
  "snd (foldl order_step (a, False) pre) \<Longrightarrow> (Bitcoin_cli 1 Getnetworkinfo, 0) \<in> set pre"
proof (induction pre rule: rev_induct)
  case Nil
  then show ?case by simp
next
  case (snoc e pre)
  define m where "m = foldl order_step (a, False) pre"
  from snoc.prems have "snd (order_step m e)"
    by (simp add: m_def)
  then have "snd m \<or> e = (Bitcoin_cli 1 Getnetworkinfo, 0)"
    by (simp add: order_step_def)
  then show ?case
    using snoc.IH by (auto simp: m_def)
qed

lemma until_never:
  assumes "\<forall>w. status run c w \<noteq> 0" and "\<forall>w. status run b w = 0"
  shows "is_waiting (until_do run c b n s)"
proof -
  have "holds (trace s) (until_do run c b n) (\<lambda>t. False) (\<lambda>x t. x = None)"
    by (rule holds_until_do) (use assms in \<open>simp_all add: never_answers_0 always_answers_0\<close>)
  then have "post (\<lambda>t. False) (\<lambda>x t. x = None) (until_do run c b n s)"
    by (rule holdsD)
  then show ?thesis
    by (cases "until_do run c b n s") (simp_all add: post_def)
qed

lemma node1_down_waits:
  "holds [] (bootstrap (respond node1_down) n)
     (\<lambda>t. False)
     (\<lambda>x t. x = None \<and> sleeps t = n
              \<and> foldl (only_step (\<lambda>c. c \<noteq> Bitcoin_cli 2 Getnetworkinfo)) True t)"
  unfolding bootstrap_def stop_and_wait_def echo_eq
  apply (intro holds_rules)
  apply (simp_all add: answers_respond node1_down_def only_rounds only_step_def sleeps_simps
      rounds_clash)
  done

text \<open>
  C8, as the code has it. The two readiness waits run one after the other: in every run of
  the script a probe of Node 2 is sent only after Node 1 has answered a probe, so the wait
  for Node 2 begins when the wait for Node 1 has completed. Neither wait has a deadline: a
  wait whose node never answers is still polling after every number of sleeps.
\<close>

theorem readiness_waits_in_turn:
  "(trace (final (script run n w)) = pre @ (Bitcoin_cli 2 Getnetworkinfo, rc) # rest
      \<longrightarrow> (Bitcoin_cli 1 Getnetworkinfo, 0) \<in> set pre)
   \<and> ((\<forall>w'. status run (Bitcoin_cli i Getnetworkinfo) w' \<noteq> 0)
        \<and> (\<forall>w'. status run (Sleep 1) w' = 0)
      \<longrightarrow> is_waiting (until_do run (Bitcoin_cli i Getnetworkinfo) (Sleep 1) k s))"
proof (intro conjI impI)
  assume t: "trace (final (script run n w)) = pre @ (Bitcoin_cli 2 Getnetworkinfo, rc) # rest"
  have "fst (foldl order_step (True, False) (pre @ (Bitcoin_cli 2 Getnetworkinfo, rc) # rest))"
    using order_script [of run n w] t by simp
  then have "fst (foldl order_step
      (order_step (foldl order_step (True, False) pre) (Bitcoin_cli 2 Getnetworkinfo, rc)) rest)"
    by simp
  then have "fst (order_step (foldl order_step (True, False) pre)
      (Bitcoin_cli 2 Getnetworkinfo, rc))"
    by (rule order_fst_mono)
  then have "snd (foldl order_step (True, False) pre)"
    by (simp add: order_step_def)
  then show "(Bitcoin_cli 1 Getnetworkinfo, 0) \<in> set pre"
    by (rule order_snd_origin)
next
  assume "(\<forall>w'. status run (Bitcoin_cli i Getnetworkinfo) w' \<noteq> 0)
        \<and> (\<forall>w'. status run (Sleep 1) w' = 0)"
  then show "is_waiting (until_do run (Bitcoin_cli i Getnetworkinfo) (Sleep 1) k s)"
    using until_never by blast
qed

theorem readiness_waits_in_turn_witness:
  "trace (final (script box_run 5 box_ready))
     = (ready_before_clean @ (Make Clean, 0) # take 8 ready_after_clean)
        @ (Bitcoin_cli 2 Getnetworkinfo, 0) # drop 9 ready_after_clean
   \<and> (Bitcoin_cli 1 Getnetworkinfo, 0)
        \<in> set (ready_before_clean @ (Make Clean, 0) # take 8 ready_after_clean)
   \<and> (\<forall>w'. status (respond node1_down) (Bitcoin_cli 1 Getnetworkinfo) w' \<noteq> 0)
   \<and> (\<forall>w'. status (respond node1_down) (Sleep 1) w' = 0)
   \<and> is_waiting (until_do (respond node1_down) (Bitcoin_cli 1 Getnetworkinfo) (Sleep 1) 30
        (start_shell ()))"
proof -
  have h: "trace (final (script box_run 5 box_ready))
     = (ready_before_clean @ (Make Clean, 0) # take 8 ready_after_clean)
        @ (Bitcoin_cli 2 Getnetworkinfo, 0) # drop 9 ready_after_clean"
    by (simp add: box_ready_trace) (simp add: ready_after_clean_def)
  have d: "(\<forall>w'. status (respond node1_down) (Bitcoin_cli 1 Getnetworkinfo) w' \<noteq> 0)
        \<and> (\<forall>w'. status (respond node1_down) (Sleep 1) w' = 0)"
    by (simp add: status_def respond_def node1_down_def)
  show ?thesis
    using h d
      readiness_waits_in_turn [where run = box_run and n = 5 and w = box_ready
        and pre = "ready_before_clean @ (Make Clean, 0) # take 8 ready_after_clean"
        and rc = 0 and rest = "drop 9 ready_after_clean"]
      readiness_waits_in_turn [where run = "respond node1_down" and i = 1 and k = 30
        and s = "start_shell ()"]
    by blast
qed

text \<open>
  The claim as stated fails: when Node 1 never answers, the bootstrap is still waiting for
  it after 30 sleeps and has not sent a single probe to Node 2.
\<close>

theorem readiness_waits_counterexample:
  "is_waiting (bootstrap (respond node1_down) 30 (start_shell ()))
   \<and> sleeps (trace (final (bootstrap (respond node1_down) 30 (start_shell ())))) = 30
   \<and> Bitcoin_cli 2 Getnetworkinfo
        \<notin> fst ` set (trace (final (bootstrap (respond node1_down) 30 (start_shell ()))))"
proof -
  have "post (\<lambda>t. False)
          (\<lambda>x t. x = None \<and> sleeps t = 30
                   \<and> foldl (only_step (\<lambda>c. c \<noteq> Bitcoin_cli 2 Getnetworkinfo)) True t)
          (bootstrap (respond node1_down) 30 (start_shell ()))"
    using node1_down_waits [of 30] by (simp add: holds_def start_shell_def)
  then show ?thesis
    by (cases "bootstrap (respond node1_down) 30 (start_shell ())")
       (auto simp: post_def dest!: only_all)
qed

section \<open>Failures and the exit status\<close>

lemma fail_rounds:
  "rounds again c b evs \<Longrightarrow> absorbed c
   \<Longrightarrow> foldl fail_step m evs =
       (if evs = [] then m
        else (fst m \<and> (case snd m of None \<Rightarrow> True | Some l \<Rightarrow> snd l = 0 \<or> absorbed (fst l)),
              Some (b, 0)))"
  by (induction again c b evs arbitrary: m rule: rounds.induct)
     (auto simp: fail_step_def split: option.splits)

lemma fail_provision:
  assumes "fst (foldl fail_step (True, None) t)"
    and "case snd (foldl fail_step (True, None) t) of
           None \<Rightarrow> True | Some l \<Rightarrow> snd l = 0 \<or> absorbed (fst l)"
  shows "holds t (provision run)
     (\<lambda>t'. fst (foldl fail_step (True, None) t')
            \<and> (case snd (foldl fail_step (True, None) t') of
                  None \<Rightarrow> True | Some l \<Rightarrow> snd l = 0 \<or> absorbed (fst l)))
     fail_end"
  unfolding provision_def echo_eq
  apply (intro holds_rules)
  using assms
  apply (simp_all add: fail_end_def fail_step_def)
  done

lemma fail_bootstrap:
  assumes "fst (foldl fail_step (True, None) t)"
    and "case snd (foldl fail_step (True, None) t) of
           None \<Rightarrow> True | Some l \<Rightarrow> snd l = 0 \<or> absorbed (fst l)"
  shows "holds t (bootstrap run n)
     (\<lambda>t'. fst (foldl fail_step (True, None) t')
            \<and> (case snd (foldl fail_step (True, None) t') of
                  None \<Rightarrow> True | Some l \<Rightarrow> snd l = 0 \<or> absorbed (fst l)))
     fail_end"
  unfolding bootstrap_def stop_and_wait_def echo_eq
  apply (intro holds_rules)
  using assms
  apply (simp_all add: fail_end_def fail_step_def fail_rounds)
  done

lemma fail_transfer:
  assumes "fst (foldl fail_step (True, None) t)"
    and "case snd (foldl fail_step (True, None) t) of
           None \<Rightarrow> True | Some l \<Rightarrow> snd l = 0 \<or> absorbed (fst l)"
  shows "holds t (transfer_check run) (fail_end (Some 0)) fail_end"
  unfolding transfer_check_def echo_eq
  apply (intro holds_rules)
  using assms
  apply (simp_all add: fail_end_def fail_step_def)
  done

lemma fail_script: "fail_end (exit_status (script run n w)) (trace (final (script run n w)))"
proof (rule script_sections
    [where A = "\<lambda>t. fst (foldl fail_step (True, None) t)
                  \<and> (case snd (foldl fail_step (True, None) t) of
                        None \<Rightarrow> True | Some l \<Rightarrow> snd l = 0 \<or> absorbed (fst l))"
       and B = "\<lambda>t. fst (foldl fail_step (True, None) t)
                  \<and> (case snd (foldl fail_step (True, None) t) of
                        None \<Rightarrow> True | Some l \<Rightarrow> snd l = 0 \<or> absorbed (fst l))"
       and C = "\<lambda>t. fst (foldl fail_step (True, None) t)
                  \<and> (case snd (foldl fail_step (True, None) t) of
                        None \<Rightarrow> True | Some l \<Rightarrow> snd l = 0 \<or> absorbed (fst l))"
       and Q = "fail_end (Some 0)" and G = fail_end])
qed (simp_all add: fail_provision fail_bootstrap fail_transfer)

lemma fail_fst_mono: "fst (foldl fail_step m evs) \<Longrightarrow> fst m"
proof (induction evs arbitrary: m)
  case Nil
  then show ?case by simp
next
  case (Cons e evs)
  then have "fst (fail_step m e)" by simp
  then show ?case by (simp add: fail_step_def)
qed

lemma fail_snd_snoc: "snd (foldl fail_step m (pre @ [e])) = Some e"
  by (simp add: fail_step_def)

lemma fail_followed:
  assumes "fst (foldl fail_step m (pre @ e # e' # rest))"
  shows "snd e = 0 \<or> absorbed (fst e)"
proof -
  define m1 where "m1 = fail_step (foldl fail_step m pre) e"
  have "fst (foldl fail_step (fail_step m1 e') rest)"
    using assms by (simp add: m1_def)
  then have "fst (fail_step m1 e')"
    by (rule fail_fst_mono)
  moreover have "snd m1 = Some e"
    by (simp add: m1_def fail_step_def)
  ultimately show ?thesis
    by (simp add: fail_step_def)
qed

lemma fail_all_before_last:
  assumes "fst (foldl fail_step m (pre @ [l]))"
  shows "\<forall>e\<in>set pre. snd e = 0 \<or> absorbed (fst e)"
proof
  fix e assume "e \<in> set pre"
  then obtain x y where p: "pre = x @ e # y"
    by (auto simp: in_set_conv_decomp)
  obtain e' rest where r: "y @ [l] = e' # rest"
    by (cases y) auto
  have "pre @ [l] = x @ e # e' # rest"
    using p r by simp
  with assms show "snd e = 0 \<or> absorbed (fst e)"
    using fail_followed by metis
qed

lemma script_trace_fails:
  "fst (foldl fail_step (True, None) (trace (final (script run n w))))"
  using fail_script [of run n w] by (simp add: fail_end_def Let_def)

text \<open>
  C5, as the code has it. The script does not tolerate a failing wallet creation: when
  \<open>createwallet\<close> returns a non-zero status, for whatever reason (an existing wallet
  included), it is the last command the script runs, and the script ends with that status.
  The failures the script does pass over are those of the commands in \<open>absorbed\<close>: a failed
  command that is followed by another command is one of them.
\<close>

theorem createwallet_failure_aborts:
  "(trace (final (script run n w)) = pre @ (Bitcoin_cli i (Createwallet name), rc) # rest
      \<and> rc \<noteq> 0
      \<longrightarrow> rest = [] \<and> exit_status (script run n w) = Some rc)
   \<and> (trace (final (script run n w)) = pre' @ (c, rc') # e # rest' \<and> rc' \<noteq> 0
      \<longrightarrow> absorbed c)"
proof (intro conjI impI)
  assume a: "trace (final (script run n w))
      = pre @ (Bitcoin_cli i (Createwallet name), rc) # rest \<and> rc \<noteq> 0"
  have f: "fst (foldl fail_step (True, None)
      (pre @ (Bitcoin_cli i (Createwallet name), rc) # rest))"
    using script_trace_fails [of run n w] a by simp
  show "rest = []"
  proof (cases rest)
    case Nil
    then show ?thesis .
  next
    case (Cons e' rest')
    with f fail_followed [of "(True, None)" pre "(Bitcoin_cli i (Createwallet name), rc)" e' rest']
    show ?thesis
      using a by simp
  qed
  then have t: "trace (final (script run n w)) = pre @ [(Bitcoin_cli i (Createwallet name), rc)]"
    using a by simp
  have "snd (foldl fail_step (True, None) (trace (final (script run n w))))
      = Some (Bitcoin_cli i (Createwallet name), rc)"
    unfolding t by (rule fail_snd_snoc)
  then show "exit_status (script run n w) = Some rc"
    using fail_script [of run n w]
    by (cases "exit_status (script run n w)") (auto simp: fail_end_def Let_def)
next
  assume a: "trace (final (script run n w)) = pre' @ (c, rc') # e # rest' \<and> rc' \<noteq> 0"
  have "fst (foldl fail_step (True, None) (pre' @ (c, rc') # e # rest'))"
    using script_trace_fails [of run n w] a by simp
  from fail_followed [OF this] a show "absorbed c"
    by simp
qed

lemma wallet_exists_script:
  "\<exists>s. script (respond wallet_exists) 0 () = Exit 4 s
       \<and> trace s = before_wallet1 @ [(Bitcoin_cli 1 (Createwallet ''wallet1''), 4)]"
  by (simp add: script_defs respond_def wallet_exists_def before_wallet1_def)

theorem createwallet_failure_aborts_witness:
  "trace (final (script (respond wallet_exists) 0 ()))
     = before_wallet1 @ (Bitcoin_cli 1 (Createwallet ''wallet1''), 4) # []
   \<and> exit_status (script (respond wallet_exists) 0 ()) = Some 4
   \<and> trace (final (script (respond wallet_exists) 0 ()))
     = take 10 before_wallet1 @ (Pgrep ''bitcoind'', 1) # (Make Clean, 0)
        # (drop 12 before_wallet1 @ [(Bitcoin_cli 1 (Createwallet ''wallet1''), 4)])
   \<and> absorbed (Pgrep ''bitcoind'')"
proof -
  have h: "trace (final (script (respond wallet_exists) 0 ()))
     = before_wallet1 @ (Bitcoin_cli 1 (Createwallet ''wallet1''), 4) # []"
    using wallet_exists_script by auto
  have k: "trace (final (script (respond wallet_exists) 0 ()))
     = take 10 before_wallet1 @ (Pgrep ''bitcoind'', 1) # (Make Clean, 0)
        # (drop 12 before_wallet1 @ [(Bitcoin_cli 1 (Createwallet ''wallet1''), 4)])"
    using h by (simp add: before_wallet1_def)
  show ?thesis
    using h k
      createwallet_failure_aborts [where run = "respond wallet_exists" and n = 0 and w = "()"
        and pre = before_wallet1 and i = 1 and name = "''wallet1''" and rc = 4 and rest = "[]"
        and pre' = "take 10 before_wallet1" and c = "Pgrep ''bitcoind''" and rc' = 1
        and e = "(Make Clean, 0)"
        and rest' = "drop 12 before_wallet1 @ [(Bitcoin_cli 1 (Createwallet ''wallet1''), 4)]"]
    by simp
qed

text \<open>
  The claim as stated fails: when \<open>createwallet wallet1\<close> fails because the wallet exists
  (status 4), the script ends there with status 4 and never creates \<open>wallet2\<close>.
\<close>

theorem createwallet_tolerance_counterexample:
  "exit_status (script (respond wallet_exists) 0 ()) = Some 4
   \<and> last (trace (final (script (respond wallet_exists) 0 ())))
       = (Bitcoin_cli 1 (Createwallet ''wallet1''), 4)
   \<and> Bitcoin_cli 2 (Createwallet ''wallet2'')
       \<notin> fst ` set (trace (final (script (respond wallet_exists) 0 ())))"
  using wallet_exists_script by (auto simp: before_wallet1_def)

text \<open>
  C6, as the code has it. From any prior state: when the script ends, its exit status is
  the status of the last command it ran, and every command before that one succeeded or is
  one whose failure the script absorbs; with status 0 the last command is \<open>make stop\<close>. A
  successful run therefore ends with the nodes asked to shut down, not left running.
\<close>

theorem script_exit_status:
  assumes "exit_status (script run n w) = Some rc"
  shows "\<exists>pre c. trace (final (script run n w)) = pre @ [(c, rc)]
           \<and> (rc = 0 \<longrightarrow> c = Make Stop)
           \<and> (\<forall>e\<in>set pre. snd e = 0 \<or> absorbed (fst e))"
proof -
  define t where "t = trace (final (script run n w))"
  have e: "fail_end (Some rc) t"
    using fail_script [of run n w] assms by (simp add: t_def)
  then obtain c where c: "snd (foldl fail_step (True, None) t) = Some (c, rc)"
    and z: "rc = 0 \<longrightarrow> c = Make Stop"
    and f: "fst (foldl fail_step (True, None) t)"
    by (auto simp: fail_end_def Let_def)
  have "t \<noteq> []"
    using c by auto
  then obtain pre l where t: "t = pre @ [l]"
    by (cases t rule: rev_cases) auto
  have l: "l = (c, rc)"
    using c fail_snd_snoc [of "(True, None)" pre l] by (simp add: t)
  have "\<forall>e\<in>set pre. snd e = 0 \<or> absorbed (fst e)"
    using f fail_all_before_last [of "(True, None)" pre l] by (simp add: t)
  then show ?thesis
    using t l z by (auto simp: t_def)
qed

theorem script_exit_status_witness:
  "exit_status (script box_run 5 box_ready) = Some 0
   \<and> (\<exists>pre c. trace (final (script box_run 5 box_ready)) = pre @ [(c, 0)]
           \<and> (0 = (0::nat) \<longrightarrow> c = Make Stop)
           \<and> (\<forall>e\<in>set pre. snd e = 0 \<or> absorbed (fst e)))"
  using box_ready_exit script_exit_status [OF box_ready_exit] by simp

lemma box_stopped_script:
  "\<exists>s. script box_run 5 box_stopped = Exit 0 s \<and> world s = box_stopping
       \<and> last (trace s) = (Make Stop, 0)"
  by (simp add: script_defs box_defs eval_nat_numeral)

lemma box_stopping_script:
  "\<exists>s. script box_run 5 box_stopping = Exit 0 s \<and> world s = box_stopping
       \<and> last (trace s) = (Make Stop, 0)"
  by (simp add: script_defs box_defs eval_nat_numeral)

text \<open>
  The claim as stated fails. On the test network the script succeeds from the stopped state
  and leaves the nodes asked to shut down; run again in that state it succeeds and leaves
  them so again; from Idle/Ready likewise. In each case the last command is \<open>make stop\<close>,
  and a second later no node process is running.
\<close>

theorem bootstrap_idempotence_counterexample:
  "exit_status (script box_run 5 box_stopped) = Some 0
   \<and> world (final (script box_run 5 box_stopped)) = box_stopping
   \<and> exit_status (script box_run 5 box_stopping) = Some 0
   \<and> world (final (script box_run 5 box_stopping)) = box_stopping
   \<and> exit_status (script box_run 5 box_ready) = Some 0
   \<and> world (final (script box_run 5 box_ready)) = box_stopping
   \<and> last (trace (final (script box_run 5 box_stopping))) = (Make Stop, 0)
   \<and> stop_requested box_stopping
   \<and> \<not> running (second_passes box_stopping)
   \<and> box_stopping \<noteq> box_ready"
proof -
  have "stop_requested box_stopping \<and> \<not> running (second_passes box_stopping)
      \<and> box_stopping \<noteq> box_ready"
    by (simp add: box_defs)
  then show ?thesis
    using box_stopped_script box_stopping_script box_ready_script by auto
qed

section \<open>The order of the bootstrap steps\<close>















section \<open>The stop and its wait\<close>








section \<open>The waits have no deadline\<close>

lemma never_exits_polls:
  assumes "\<forall>w. status run (Pgrep ''bitcoind'') w = 0"
  shows "holds t (bootstrap run n)
     (\<lambda>t'. False)
     (\<lambda>x t'. foldl (only_step (\<lambda>c. is_echo c \<or> c \<in> {Make Stop, Pgrep ''bitcoind'', Sleep 1}))
                 True (drop (length t) t')
              \<and> (case x of
                    None \<Rightarrow> sleeps (drop (length t) t') = n
                  | Some rc \<Rightarrow> rc \<noteq> 0
                      \<and> (\<exists>c. last t' = (c, rc) \<and> (is_echo c \<or> c = Sleep 1))))"
  unfolding bootstrap_def stop_and_wait_def echo_eq
  apply (intro holds_rules)
  using assms
  apply (simp_all add: always_answers_0 only_rounds only_step_def sleeps_simps)
  done

lemma never_exits_waits:
  assumes "\<forall>w. status run (Pgrep ''bitcoind'') w = 0"
    and "\<forall>w. status run (Sleep 1) w = 0"
    and "\<forall>line w. status run (Echo line) w = 0"
  shows "holds t (bootstrap run n)
     (\<lambda>t'. False) (\<lambda>x t'. x = None \<and> sleeps (drop (length t) t') = n)"
  unfolding bootstrap_def stop_and_wait_def echo_eq
  apply (intro holds_rules)
  using assms
  apply (simp_all add: always_answers_0 sleeps_simps)
  done

lemma never_ready_polls:
  assumes "i = 1 \<or> i = 2"
    and "\<forall>w. status run (Bitcoin_cli i Getnetworkinfo) w \<noteq> 0"
  shows "holds t (bootstrap run n)
     (\<lambda>t'. False)
     (\<lambda>x t'. foldl (only_step (\<lambda>c. \<not> rpc_call c)) True (drop (length t) t')
              \<and> (case x of
                    None \<Rightarrow> True
                  | Some rc \<Rightarrow> rc \<noteq> 0
                      \<and> (\<exists>c. last t' = (c, rc)
                            \<and> (is_echo c \<or> c \<in> {Sleep 1, Make Clean, Make Start}))))"
  unfolding bootstrap_def stop_and_wait_def echo_eq
  apply (intro holds_rules)
  using assms
  apply (auto simp add: never_answers_0 only_rounds only_step_def)
  done

text \<open>
  C3, as the code has it. No wait of the bootstrap has a deadline, and the script has no
  timeout error. If the node process never exits (every \<open>pgrep\<close> finds it), the bootstrap
  never completes and runs nothing but its messages, \<open>make stop\<close>, \<open>pgrep\<close> and \<open>sleep 1\<close>:
  after any number \<open>n\<close> of sleeps it is still waiting, unless an \<open>echo\<close> or a \<open>sleep 1\<close>
  failed and ended the script with that command's status; when \<open>echo\<close> and \<open>sleep 1\<close> always
  succeed, it is still waiting after every \<open>n\<close>. If a node never answers \<open>getnetworkinfo\<close>,
  the bootstrap never completes and issues no RPC call (no wallet creation, no mining, no
  info query): it is still waiting, unless an \<open>echo\<close>, a \<open>sleep 1\<close>, \<open>make clean\<close> or
  \<open>make start\<close> failed and ended the script with that command's status.
\<close>

theorem waits_have_no_deadline:
  "((\<forall>w. status run (Pgrep ''bitcoind'') w = 0)
      \<longrightarrow> \<not> is_next (bootstrap run n s)
          \<and> (\<forall>e\<in>set (issued (bootstrap run n) s).
                is_echo (fst e) \<or> fst e \<in> {Make Stop, Pgrep ''bitcoind'', Sleep 1})
          \<and> ((is_waiting (bootstrap run n s) \<and> sleeps (issued (bootstrap run n) s) = n)
              \<or> (\<exists>rc c. exit_status (bootstrap run n s) = Some rc \<and> rc \<noteq> 0
                    \<and> last (trace (final (bootstrap run n s))) = (c, rc)
                    \<and> (is_echo c \<or> c = Sleep 1))))
   \<and> ((\<forall>w. status run (Pgrep ''bitcoind'') w = 0) \<and> (\<forall>w. status run (Sleep 1) w = 0)
        \<and> (\<forall>line w. status run (Echo line) w = 0)
      \<longrightarrow> is_waiting (bootstrap run n s) \<and> sleeps (issued (bootstrap run n) s) = n)
   \<and> ((i = 1 \<or> i = 2) \<and> (\<forall>w. status run (Bitcoin_cli i Getnetworkinfo) w \<noteq> 0)
      \<longrightarrow> \<not> is_next (bootstrap run n s)
          \<and> (\<forall>e\<in>set (issued (bootstrap run n) s). \<not> rpc_call (fst e))
          \<and> (is_waiting (bootstrap run n s)
              \<or> (\<exists>rc c. exit_status (bootstrap run n s) = Some rc \<and> rc \<noteq> 0
                    \<and> last (trace (final (bootstrap run n s))) = (c, rc)
                    \<and> (is_echo c \<or> c \<in> {Sleep 1, Make Clean, Make Start}))))"
proof (intro conjI impI)
  assume a: "\<forall>w. status run (Pgrep ''bitcoind'') w = 0"
  have p: "post (\<lambda>t'. False)
     (\<lambda>x t'. foldl (only_step (\<lambda>c. is_echo c \<or> c \<in> {Make Stop, Pgrep ''bitcoind'', Sleep 1}))
                 True (drop (length (trace s)) t')
              \<and> (case x of
                    None \<Rightarrow> sleeps (drop (length (trace s)) t') = n
                  | Some rc \<Rightarrow> rc \<noteq> 0
                      \<and> (\<exists>c. last t' = (c, rc) \<and> (is_echo c \<or> c = Sleep 1))))
     (bootstrap run n s)"
    using never_exits_polls [OF a] by (rule holdsD)
  show "\<not> is_next (bootstrap run n s)"
    using p by (cases "bootstrap run n s") (simp_all add: post_def)
  show "\<forall>e\<in>set (issued (bootstrap run n) s).
      is_echo (fst e) \<or> fst e \<in> {Make Stop, Pgrep ''bitcoind'', Sleep 1}"
    using p by (cases "bootstrap run n s") (auto simp: post_def issued_def dest!: only_all)
  show "(is_waiting (bootstrap run n s) \<and> sleeps (issued (bootstrap run n) s) = n)
      \<or> (\<exists>rc c. exit_status (bootstrap run n s) = Some rc \<and> rc \<noteq> 0
            \<and> last (trace (final (bootstrap run n s))) = (c, rc)
            \<and> (is_echo c \<or> c = Sleep 1))"
    using p by (cases "bootstrap run n s") (auto simp: post_def issued_def)
next
  assume a: "(\<forall>w. status run (Pgrep ''bitcoind'') w = 0) \<and> (\<forall>w. status run (Sleep 1) w = 0)
        \<and> (\<forall>line w. status run (Echo line) w = 0)"
  have p: "post (\<lambda>t'. False) (\<lambda>x t'. x = None \<and> sleeps (drop (length (trace s)) t') = n)
     (bootstrap run n s)"
    using never_exits_waits [OF a [THEN conjunct1] a [THEN conjunct2, THEN conjunct1]
        a [THEN conjunct2, THEN conjunct2]]
    by (rule holdsD)
  show "is_waiting (bootstrap run n s)"
    using p by (cases "bootstrap run n s") (simp_all add: post_def)
  show "sleeps (issued (bootstrap run n) s) = n"
    using p by (cases "bootstrap run n s") (simp_all add: post_def issued_def)
next
  assume a: "(i = 1 \<or> i = 2) \<and> (\<forall>w. status run (Bitcoin_cli i Getnetworkinfo) w \<noteq> 0)"
  have p: "post (\<lambda>t'. False)
     (\<lambda>x t'. foldl (only_step (\<lambda>c. \<not> rpc_call c)) True (drop (length (trace s)) t')
              \<and> (case x of
                    None \<Rightarrow> True
                  | Some rc \<Rightarrow> rc \<noteq> 0
                      \<and> (\<exists>c. last t' = (c, rc)
                            \<and> (is_echo c \<or> c \<in> {Sleep 1, Make Clean, Make Start}))))
     (bootstrap run n s)"
    using never_ready_polls [OF a [THEN conjunct1] a [THEN conjunct2]] by (rule holdsD)
  show "\<not> is_next (bootstrap run n s)"
    using p by (cases "bootstrap run n s") (simp_all add: post_def)
  show "\<forall>e\<in>set (issued (bootstrap run n) s). \<not> rpc_call (fst e)"
    using p by (cases "bootstrap run n s") (auto simp: post_def issued_def dest!: only_all)
  show "is_waiting (bootstrap run n s)
      \<or> (\<exists>rc c. exit_status (bootstrap run n s) = Some rc \<and> rc \<noteq> 0
            \<and> last (trace (final (bootstrap run n s))) = (c, rc)
            \<and> (is_echo c \<or> c \<in> {Sleep 1, Make Clean, Make Start}))"
    using p by (cases "bootstrap run n s") (auto simp: post_def)
qed

theorem waits_have_no_deadline_witness:
  "(\<forall>w. status (respond never_exits) (Pgrep ''bitcoind'') w = 0)
   \<and> (\<forall>w. status (respond never_exits) (Sleep 1) w = 0)
   \<and> (\<forall>line w. status (respond never_exits) (Echo line) w = 0)
   \<and> is_waiting (bootstrap (respond never_exits) 7 (start_shell ()))
   \<and> sleeps (issued (bootstrap (respond never_exits) 7) (start_shell ())) = 7
   \<and> \<not> is_next (bootstrap (respond never_exits) 7 (start_shell ()))
   \<and> (\<forall>w. status (respond node1_down) (Bitcoin_cli 1 Getnetworkinfo) w \<noteq> 0)
   \<and> \<not> is_next (bootstrap (respond node1_down) 7 (start_shell ()))"
proof -
  note ne = waits_have_no_deadline [where run = "respond never_exits" and n = 7
      and s = "start_shell ()"]
  note nd = waits_have_no_deadline [where run = "respond node1_down" and n = 7
      and s = "start_shell ()" and i = 1]
  have w1: "\<forall>w. status (respond never_exits) (Pgrep ''bitcoind'') w = 0"
    and w2: "\<forall>w. status (respond never_exits) (Sleep 1) w = 0"
    and w3: "\<forall>line w. status (respond never_exits) (Echo line) w = 0"
    and w7: "\<forall>w. status (respond node1_down) (Bitcoin_cli 1 Getnetworkinfo) w \<noteq> 0"
    by (simp_all add: status_respond never_exits_def node1_down_def)
  from ne [THEN conjunct2, THEN conjunct1, THEN mp, OF conjI [OF w1 conjI [OF w2 w3]]]
  have w4: "is_waiting (bootstrap (respond never_exits) 7 (start_shell ()))"
    and w5: "sleeps (issued (bootstrap (respond never_exits) 7) (start_shell ())) = 7"
    by simp_all
  from ne [THEN conjunct1, THEN mp, OF w1]
  have w6: "\<not> is_next (bootstrap (respond never_exits) 7 (start_shell ()))"
    by (rule conjunct1)
  have "(1::nat) = 1 \<or> (1::nat) = 2"
    by simp
  from nd [THEN conjunct2, THEN conjunct2, THEN mp, OF conjI [OF this w7]]
  have w8: "\<not> is_next (bootstrap (respond node1_down) 7 (start_shell ()))"
    by (rule conjunct1)
  from w1 w2 w3 w4 w5 w6 w7 w8 show ?thesis
    by (intro conjI) assumption+
qed

text \<open>
  The claim as stated fails: when the node process never exits, the bootstrap has not
  terminated after 30 sleeps of one second (the deadline the spec gives as an example), it
  has no exit status, and it is still waiting.
\<close>

theorem wait_deadline_counterexample:
  "is_waiting (bootstrap (respond never_exits) 30 (start_shell ()))
   \<and> exit_status (bootstrap (respond never_exits) 30 (start_shell ())) = None
   \<and> sleeps (trace (final (bootstrap (respond never_exits) 30 (start_shell ())))) = 30"
proof -
  have "holds [] (bootstrap (respond never_exits) 30)
     (\<lambda>t'. False) (\<lambda>x t'. x = None \<and> sleeps t' = 30)"
    using never_exits_waits [where run = "respond never_exits" and t = "[]" and n = 30]
    by (simp add: status_respond never_exits_def)
  then have "post (\<lambda>t'. False) (\<lambda>x t'. x = None \<and> sleeps t' = 30)
     (bootstrap (respond never_exits) 30 (start_shell ()))"
    by (simp add: holds_def start_shell_def)
  then show ?thesis
    by (cases "bootstrap (respond never_exits) 30 (start_shell ())") (simp_all add: post_def)
qed

end
